theory Spec2Isabelle
  imports Main "HOL-Library.Word"
begin

section \<open>Character classification (C locale of \<open>cctype\<close>)\<close>

text \<open>
  The program never calls \<open>setlocale\<close>, so \<open>isxdigit\<close>, \<open>isblank\<close> and \<open>tolower\<close>
  are those of the C locale: the 22 hexadecimal digits, space and horizontal tab, and
  the mapping of \<open>A..Z\<close> to \<open>a..z\<close>.
\<close>

definition isxdigit :: "char \<Rightarrow> bool" where
  "isxdigit c = (c \<in> set ''0123456789abcdefABCDEF'')"

definition isblank :: "char \<Rightarrow> bool" where
  "isblank c = (c = CHR '' '' \<or> c = CHR 0x09)"

definition tolower :: "char \<Rightarrow> char" where
  "tolower c =
     (case map_of (zip ''ABCDEFGHIJKLMNOPQRSTUVWXYZ'' ''abcdefghijklmnopqrstuvwxyz'') c of
        Some l \<Rightarrow> l
      | None \<Rightarrow> c)"

section \<open>Program state\<close>

text \<open>
  \<open>gLinePrefix\<close> is the global \<open>uint32_t\<close> of the program. \<open>ofs\<close> is the output file
  stream: the lines written so far, oldest first, each one written by
  \<open>ofs << line << endl\<close>. \<open>cout\<close> and \<open>cerr\<close> are the characters written to standard
  output and to standard error.
\<close>

record world =
  gLinePrefix :: "32 word"
  ofs :: "string list"
  cout :: string
  cerr :: string

text \<open>The local variables of \<open>gen_hexdump\<close> that live across loop iterations.\<close>

record locals =
  line :: string
  cidx :: "32 word"
  last_space :: "32 word"
  num_hex :: "8 word"

section \<open>The line classifier \<open>preprocess_hex_str\<close>\<close>

text \<open>
  \<open>std::string::operator[]\<close> (C++11, the documented build uses \<open>-std=c++0x\<close>): a position
  below \<open>size()\<close> holds a character of the string, position \<open>size()\<close> holds the
  terminator \<open>'\0'\<close>, and any position beyond is undefined behaviour, here \<open>None\<close>.
\<close>

definition char_at :: "string \<Rightarrow> nat \<Rightarrow> char option" where
  "char_at s i =
     (if i < length s then Some (s ! i)
      else if i = length s then Some (CHR 0x00)
      else None)"

text \<open>
  The classifier indexes with an \<open>int\<close>: an index expression that leaves the range of
  \<open>int\<close> is a signed overflow, undefined behaviour as well.
\<close>

definition line_at :: "string \<Rightarrow> nat \<Rightarrow> char option" where
  "line_at s i = (if i < 2 ^ 31 then char_at s i else None)"

text \<open>\<open>while (line[i] == '\r') i++;\<close> started at \<open>i\<close>; the result is the final \<open>i\<close>.\<close>

function skip_cr :: "string \<Rightarrow> nat \<Rightarrow> nat option" where
  "skip_cr s i =
     (case line_at s i of
        None \<Rightarrow> None
      | Some c \<Rightarrow> if c = CHR 0x0D then skip_cr s (i + 1) else Some i)"
  by pat_completeness auto
termination
  by (relation "measure (\<lambda>(s, i). Suc (length s) - i)")
     (auto simp: line_at_def char_at_def split: if_splits)

declare skip_cr.simps [simp del]

text \<open>
  The short-circuit conjunction \<open>&&\<close>: the right operand is evaluated, and its reads are
  made, only when the left operand is true.
\<close>

definition sc_and :: "bool option \<Rightarrow> bool option \<Rightarrow> bool option" where
  "sc_and a b = (case a of None \<Rightarrow> None | Some False \<Rightarrow> Some False | Some True \<Rightarrow> b)"

definition is_hex_line :: "string \<Rightarrow> bool option" where
  "is_hex_line s =
     (case skip_cr s 0 of
        None \<Rightarrow> None
      | Some i \<Rightarrow>
          sc_and (map_option isxdigit (line_at s i))
         (sc_and (map_option isxdigit (line_at s (i + 1)))
         (sc_and (map_option isblank (line_at s (i + 2)))
         (sc_and (map_option isxdigit (line_at s (i + 3)))
                 (map_option isxdigit (line_at s (i + 4)))))))"

text \<open>
  \<open>preprocess_hex_str\<close>: the verdict, and the state in which \<open>gLinePrefix\<close> has been set
  to 0 when the verdict is false.
\<close>

definition preprocess_hex_str :: "string \<Rightarrow> world \<Rightarrow> (bool \<times> world) option" where
  "preprocess_hex_str s w =
     (case is_hex_line s of
        None \<Rightarrow> None
      | Some True \<Rightarrow> Some (True, w)
      | Some False \<Rightarrow> Some (False, w\<lparr>gLinePrefix := 0\<rparr>))"

section \<open>Formatting the offset: \<open>snprintf(buf, sizeof(buf), "%06x ", gLinePrefix)\<close>\<close>

definition hexchar :: "nat \<Rightarrow> char" where
  "hexchar d = ''0123456789abcdef'' ! d"

fun hexstr :: "nat \<Rightarrow> string" where
  "hexstr n = (if n < 16 then [hexchar n] else hexstr (n div 16) @ [hexchar (n mod 16)])"

declare hexstr.simps [simp del]

text \<open>\<open>%06x\<close>: lowercase hexadecimal, padded with zeros on the left to at least 6 digits.\<close>

definition hex06 :: "nat \<Rightarrow> string" where
  "hex06 n = replicate (6 - length (hexstr n)) (CHR ''0'') @ hexstr n"

text \<open>\<open>snprintf\<close> into a buffer of \<open>n\<close> bytes keeps at most \<open>n - 1\<close> characters.\<close>

definition snprintf_06x :: "nat \<Rightarrow> 32 word \<Rightarrow> string" where
  "snprintf_06x n x = take (n - 1) (hex06 (unat x) @ '' '')"

section \<open>The formatter \<open>gen_hexdump\<close>\<close>

text \<open>One iteration of the \<open>for\<close> loop, on the character \<open>hex_str[i]\<close>.\<close>

definition loop_body :: "char \<Rightarrow> locals \<times> world \<Rightarrow> locals \<times> world" where
  "loop_body ch = (\<lambda>(v, w).
     let c = tolower ch in
     if \<not> isxdigit c then (v, w)
     else
       let v = v\<lparr>line := line v @ [c], cidx := cidx v + 1\<rparr>;
           v = (if cidx v - last_space v > 2 then
                  let v = v\<lparr>num_hex := num_hex v + 1\<rparr>;
                      v = (if num_hex v = 8
                           then v\<lparr>line := line v @ '' '', cidx := cidx v + 1\<rparr> else v);
                      v = (if num_hex v \<noteq> 16
                           then v\<lparr>line := line v @ '' '', last_space := cidx v,
                                  cidx := cidx v + 1\<rparr>
                           else v)
                  in v
                else v)
       in if num_hex v = 16 then
            let w = w\<lparr>ofs := ofs w @ [line v]\<rparr>;
                w = w\<lparr>gLinePrefix := gLinePrefix w + ucast (num_hex v)\<rparr>;
                l = [] @ snprintf_06x 16 (gLinePrefix w)
            in (\<lparr>line = l, cidx = of_nat (length l), last_space = of_nat (length l) - 1,
                 num_hex = 0\<rparr>, w)
          else (v, w))"

text \<open>
  \<open>for (uint32_t i = 0; i < hex_str.length(); ++i)\<close>: the counter is 32 bits wide and
  wraps, the length is a \<open>size_t\<close>. Not returning is the value \<open>None\<close>.
\<close>

partial_function (option) gen_loop ::
  "string \<Rightarrow> 32 word \<Rightarrow> locals \<times> world \<Rightarrow> (locals \<times> world) option" where
  "gen_loop hex_str i st =
     (if unat i < length hex_str
      then gen_loop hex_str (i + 1) (loop_body (hex_str ! unat i) st)
      else Some st)"

declare gen_loop.simps [code]

definition gen_hexdump :: "string \<Rightarrow> world \<Rightarrow> world option" where
  "gen_hexdump hex_str w =
     (case preprocess_hex_str hex_str w of
        None \<Rightarrow> None
      | Some (False, w) \<Rightarrow> Some w
      | Some (True, w) \<Rightarrow>
          let l = snprintf_06x 16 (gLinePrefix w);
              v = \<lparr>line = l, cidx = of_nat (length l), last_space = of_nat (length l) - 1,
                   num_hex = 0\<rparr>
          in (case gen_loop hex_str 0 (v, w) of
                None \<Rightarrow> None
              | Some (v, w) \<Rightarrow>
                  Some (if num_hex v \<noteq> 0 \<or> cidx v - last_space v > 1
                        then w\<lparr>ofs := ofs w @ [line v]\<rparr> else w)))"

section \<open>The input readers\<close>

text \<open>
  The file system is a map from paths to contents; a path it does not map cannot be
  opened for reading. \<open>getlines\<close> is the sequence of lines that successive calls of
  \<open>getline\<close> extract.
\<close>

function getlines :: "string \<Rightarrow> string list" where
  "getlines cs =
     (if cs = [] then []
      else takeWhile (\<lambda>c. c \<noteq> CHR 0x0A) cs
             # getlines (drop 1 (dropWhile (\<lambda>c. c \<noteq> CHR 0x0A) cs)))"
  by pat_completeness auto
termination
proof (relation "measure length")
  fix cs :: string
  assume "cs \<noteq> []"
  then have "0 < length cs" by simp
  moreover have "length (dropWhile (\<lambda>c. c \<noteq> CHR 0x0A) cs) \<le> length cs"
    by (rule length_dropWhile_le)
  ultimately have "length (dropWhile (\<lambda>c. c \<noteq> CHR 0x0A) cs) - 1 < length cs"
    by arith
  then show "(drop 1 (dropWhile (\<lambda>c. c \<noteq> CHR 0x0A) cs), cs) \<in> measure length"
    by simp
qed simp

declare getlines.simps [simp del]

definition read_hex_str ::
  "(string \<rightharpoonup> string) \<Rightarrow> string \<Rightarrow> string \<Rightarrow> world \<Rightarrow> 32 word \<times> string \<times> world" where
  "read_hex_str fs fname hex_str w =
     (case fs fname of
        None \<Rightarrow> (0, hex_str, w\<lparr>cout := cout w @ ''Unable to open file'' @ fname @ [CHR 0x0A]\<rparr>)
      | Some content \<Rightarrow>
          let h = hex_str @ concat (map (\<lambda>l. l @ [CHR 0x0A]) (getlines content))
          in (of_nat (length h), h, w))"

fun dump_lines :: "string list \<Rightarrow> world \<Rightarrow> world option" where
  "dump_lines [] w = Some w"
| "dump_lines (l # ls) w =
     (if l \<noteq> [] then (case gen_hexdump l w of None \<Rightarrow> None | Some w' \<Rightarrow> dump_lines ls w')
      else dump_lines ls w)"

definition read_hex_gen_dump ::
  "(string \<rightharpoonup> string) \<Rightarrow> string \<Rightarrow> world \<Rightarrow> (bool \<times> world) option" where
  "read_hex_gen_dump fs fin w =
     (case fs fin of
        None \<Rightarrow> Some (False, w\<lparr>cout := cout w @ ''Unable to open file'' @ fin @ [CHR 0x0A]\<rparr>)
      | Some content \<Rightarrow>
          (case dump_lines (getlines content) w of
             None \<Rightarrow> None
           | Some w' \<Rightarrow> Some (True, w')))"

text \<open>A sequence of calls of \<open>gen_hexdump\<close>, one per element, on the same output stream.\<close>

fun invocations :: "string list \<Rightarrow> world \<Rightarrow> world option" where
  "invocations [] w = Some w"
| "invocations (l # ls) w =
     (case gen_hexdump l w of None \<Rightarrow> None | Some w' \<Rightarrow> invocations ls w')"

section \<open>Notions of the specification\<close>

text \<open>
  The hex-digit stream of an input: its hex digits, lowercased, in their original order.
\<close>

definition digits :: "string \<Rightarrow> string" where
  "digits s = map tolower (filter isxdigit s)"

text \<open>
  The classifier heuristic in the words of the specification: after the leading
  carriage returns, two hex digits, a blank, two hex digits.
\<close>

definition hex_pattern :: "string \<Rightarrow> bool" where
  "hex_pattern s =
     (case dropWhile (\<lambda>c. c = CHR 0x0D) s of
        a # b # c # d # e # _ \<Rightarrow> isxdigit a \<and> isxdigit b \<and> isblank c \<and> isxdigit d \<and> isxdigit e
      | _ \<Rightarrow> False)"

text \<open>
  The same heuristic with the third character tested as the claim words it, as a
  whitespace character: \<open>isspace\<close> of the C locale holds for the space, the tab, the
  line feed, the vertical tab, the form feed and the carriage return.
\<close>

definition isspace :: "char \<Rightarrow> bool" where
  "isspace c = (c \<in> set [CHR '' '', CHR 0x09, CHR 0x0A, CHR 0x0B, CHR 0x0C, CHR 0x0D])"

definition whitespace_pattern :: "string \<Rightarrow> bool" where
  "whitespace_pattern s =
     (case dropWhile (\<lambda>c. c = CHR 0x0D) s of
        a # b # c # d # e # _ \<Rightarrow> isxdigit a \<and> isxdigit b \<and> isspace c \<and> isxdigit d \<and> isxdigit e
      | _ \<Rightarrow> False)"

text \<open>
  Reading a written row back: the offset is what precedes the first space, the payload is
  what remains of the rest once the spaces are removed, and a row is complete when its
  payload has the 32 digits of 16 bytes. \<open>pairs\<close> cuts a payload into its byte groups,
  the last of which has one digit when the payload has an odd number of digits.
\<close>

definition offset_of :: "string \<Rightarrow> string" where
  "offset_of r = takeWhile (\<lambda>c. c \<noteq> CHR '' '') r"

definition payload :: "string \<Rightarrow> string" where
  "payload r = filter (\<lambda>c. c \<noteq> CHR '' '') (dropWhile (\<lambda>c. c \<noteq> CHR '' '') r)"

definition complete_row :: "string \<Rightarrow> bool" where
  "complete_row r = (length (payload r) = 32)"

fun pairs :: "string \<Rightarrow> string list" where
  "pairs (a # b # ds) = [a, b] # pairs ds"
| "pairs [a] = [[a]]"
| "pairs [] = []"

text \<open>
  The spacing the specification asks for between the byte groups of a row, the first of
  which has number \<open>i\<close>: one space between neighbours, two between the 8th and the 9th
  group, nothing after the last group.
\<close>

fun layout :: "nat \<Rightarrow> string list \<Rightarrow> string" where
  "layout i [] = []"
| "layout i [g] = g"
| "layout i (g # gs) = g @ (if i = 8 then ''  '' else '' '') @ layout (Suc i) gs"

section \<open>The loop in closed form\<close>

text \<open>
  \<open>seps j\<close> is what the loop appends after the \<open>j\<close>-th byte of a row, \<open>body k ds\<close> the
  text it appends for the digits \<open>ds\<close> when \<open>k\<close> bytes of the row are already complete,
  and \<open>rows_from p ds\<close> the rows it builds from the digit stream \<open>ds\<close> when the counter
  is \<open>p\<close>: one row for every 32 digits, and a last one for the digits that remain.
\<close>

definition seps :: "nat \<Rightarrow> string" where
  "seps j = (if j = 8 then '' '' else []) @ (if j \<noteq> 16 then '' '' else [])"

fun body :: "nat \<Rightarrow> string \<Rightarrow> string" where
  "body k (a # b # ds) = a # b # seps (Suc k) @ body (Suc k) ds"
| "body k ds = ds"

function rows_from :: "32 word \<Rightarrow> string \<Rightarrow> string list" where
  "rows_from p ds =
     (if ds = [] then []
      else (hex06 (unat p) @ '' '' @ body 0 (take 32 ds)) # rows_from (p + 16) (drop 32 ds))"
  by pat_completeness auto
termination
  by (relation "measure (\<lambda>(p, ds). length ds)") auto

declare rows_from.simps [simp del]

text \<open>
  The loop as a fold over the characters, the test after the loop, and the local
  variables at a point where the row under construction holds the digits \<open>cur\<close>.
\<close>

definition run_loop :: "string \<Rightarrow> locals \<times> world \<Rightarrow> locals \<times> world" where
  "run_loop cs st = foldl (\<lambda>st c. loop_body c st) st cs"

definition finish :: "locals \<times> world \<Rightarrow> world" where
  "finish = (\<lambda>(v, w). if num_hex v \<noteq> 0 \<or> cidx v - last_space v > 1
                        then w\<lparr>ofs := ofs w @ [line v]\<rparr> else w)"

definition mid :: "32 word \<Rightarrow> string \<Rightarrow> locals" where
  "mid p cur =
     (let l = hex06 (unat p) @ '' '' @ body 0 cur
      in \<lparr>line = l, cidx = of_nat (length l),
          last_space = of_nat (length l) - 1 - of_nat (length cur mod 2),
          num_hex = of_nat (length cur div 2)\<rparr>)"

text \<open>The inputs of the examples below.\<close>

definition w_init :: world where
  "w_init = \<lparr>gLinePrefix = 0, ofs = [], cout = [], cerr = []\<rparr>"

text \<open>
  The example of the program's header comment: the hex string as three lines, as the
  single string that \<open>read_hex_str\<close> builds from a file holding them, and the dump
  that the comment announces for it.
\<close>

definition example_lines :: "string list" where
  "example_lines =
     [''c2ef0a00 00918843 e138a72b 08004500 003cd373 40004006 58ac0202 020a0a00'',
      ''0091aae6 0016b446 7f860000 0000a002 39082c11 00000204 05b40402 080acf40'',
      ''26400000 00000103 0307'']"

definition example_hex_str :: string where
  "example_hex_str = concat (map (\<lambda>l. l @ [CHR 0x0A]) example_lines)"

definition example_dump :: "string list" where
  "example_dump =
     [''000000 c2 ef 0a 00 00 91 88 43  e1 38 a7 2b 08 00 45 00'',
      ''000010 00 3c d3 73 40 00 40 06  58 ac 02 02 02 0a 0a 00'',
      ''000020 00 91 aa e6 00 16 b4 46  7f 86 00 00 00 00 a0 02'',
      ''000030 39 08 2c 11 00 00 02 04  05 b4 04 02 08 0a cf 40'',
      ''000040 26 40 00 00 00 00 01 03  03 07'']"

text \<open>The same text with a blank set after its first byte.\<close>

definition example_spaced :: string where
  "example_spaced = ''c2 '' @ drop 2 example_hex_str"

text \<open>
  The rows that a sequence of calls on accepted lines appends when the counter is \<open>p\<close>
  before the first call, and a line of 16 bytes.
\<close>

definition full_line :: string where
  "full_line = ''00 0102030405060708090a0b0c0d0e0f''"

fun all_rows :: "32 word \<Rightarrow> string list \<Rightarrow> string list" where
  "all_rows p [] = []"
| "all_rows p (l # ls) =
     rows_from p (digits l) @ all_rows (p + 16 * of_nat (length (digits l) div 32)) ls"

section \<open>Characters and offsets\<close>

lemma isxdigit_tolower: "isxdigit (tolower c) = isxdigit c"
proof (cases "c \<in> set ''ABCDEFGHIJKLMNOPQRSTUVWXYZ''")
  case True
  then have "c = CHR ''A'' \<or> c = CHR ''B'' \<or> c = CHR ''C'' \<or> c = CHR ''D'' \<or> c = CHR ''E''
      \<or> c = CHR ''F'' \<or> c \<in> set ''GHIJKLMNOPQRSTUVWXYZ''"
    by auto
  then show ?thesis
  proof (elim disjE)
    assume up: "c \<in> set ''GHIJKLMNOPQRSTUVWXYZ''"
    then have "c \<notin> set ''0123456789abcdefABCDEF''" by auto
    moreover have "tolower c \<in> set ''ghijklmnopqrstuvwxyz''"
      using up unfolding tolower_def by (elim disjE | simp)+
    then have "tolower c \<notin> set ''0123456789abcdefABCDEF''" by auto
    ultimately show ?thesis by (simp add: isxdigit_def)
  qed (simp_all add: isxdigit_def tolower_def)
next
  case False
  then have "tolower c = c" unfolding tolower_def by simp
  then show ?thesis by simp
qed

lemma xdigit_not_space: "isxdigit c \<Longrightarrow> c \<noteq> CHR '' ''"
  unfolding isxdigit_def by auto

lemma not_xdigit_nul: "\<not> isxdigit (CHR 0x00)" "\<not> isblank (CHR 0x00)"
  by (simp_all add: isxdigit_def isblank_def)

lemma digits_xdigit: "\<forall>c \<in> set (digits s). isxdigit c"
  by (simp add: digits_def isxdigit_tolower)

lemma hexchar_xdigit: "d < 16 \<Longrightarrow> isxdigit (hexchar d)"
proof -
  assume "d < 16"
  then have "d \<in> set [0..<16]" by simp
  then show ?thesis unfolding isxdigit_def hexchar_def by (auto simp: upt_rec)
qed

lemma hexstr_xdigit: "\<forall>c \<in> set (hexstr n). isxdigit c"
proof (induction n rule: hexstr.induct)
  case (1 n)
  show ?case
  proof (cases "n < 16")
    case True
    then show ?thesis by (simp add: hexstr.simps [of n] hexchar_xdigit)
  next
    case False
    with 1 show ?thesis by (simp add: hexstr.simps [of n] hexchar_xdigit)
  qed
qed

lemma hexstr_length: "0 < k \<Longrightarrow> n < 16 ^ k \<Longrightarrow> length (hexstr n) \<le> k"
proof (induction n arbitrary: k rule: hexstr.induct)
  case (1 n)
  show ?case
  proof (cases "n < 16")
    case True
    with 1(2) show ?thesis by (simp add: hexstr.simps [of n])
  next
    case False
    have k: "1 < k"
    proof (rule ccontr)
      assume "\<not> 1 < k"
      with 1(2) have "k = 1" by simp
      with 1(3) False show False by simp
    qed
    then obtain j where j: "k = Suc j" "0 < j" by (cases k) auto
    from 1(3) j have "n div 16 < 16 ^ j"
      by (simp add: less_mult_imp_div_less mult.commute)
    with 1(1) [OF False j(2)] have "length (hexstr (n div 16)) \<le> j" by simp
    with False j show ?thesis by (simp add: hexstr.simps [of n])
  qed
qed

lemma hex06_xdigit: "\<forall>c \<in> set (hex06 n). isxdigit c"
proof -
  have "isxdigit (CHR ''0'')" by (simp add: isxdigit_def)
  with hexstr_xdigit [of n] show ?thesis by (auto simp: hex06_def)
qed

lemma hex06_no_space: "\<forall>c \<in> set (hex06 n). c \<noteq> CHR '' ''"
  using hex06_xdigit [of n] xdigit_not_space by blast

lemma hex06_length_word: "length (hex06 (unat (x :: 32 word))) \<le> 8"
proof -
  have "unat x < 2 ^ 32" using unsigned_less [of x] by simp
  then have "unat x < 16 ^ 8" by simp
  then have "length (hexstr (unat x)) \<le> 8" by (intro hexstr_length) auto
  then show ?thesis by (simp add: hex06_def)
qed

lemma snprintf_06x_16: "snprintf_06x 16 x = hex06 (unat x) @ '' ''"
  using hex06_length_word [of x] by (simp add: snprintf_06x_def)

text \<open>Rules that let the simplifier print a concrete offset.\<close>

lemma hexstr_small: "n < 16 \<Longrightarrow> hexstr n = [hexchar n]"
  by (simp add: hexstr.simps)

lemma hexstr_big: "\<not> n < 16 \<Longrightarrow> hexstr n = hexstr (n div 16) @ [hexchar (n mod 16)]"
  by (subst hexstr.simps) simp

lemma replicate_numeral: "replicate (numeral v) x = x # replicate (numeral v - 1) x"
  by (simp add: numeral_eq_Suc)

lemmas hex_eval = hex06_def hexstr_small hexstr_big hexchar_def replicate_numeral

section \<open>The classifier\<close>

lemma line_at_char_at: "length s < 2 ^ 31 \<Longrightarrow> line_at s i = char_at s i"
  by (simp add: line_at_def char_at_def)

lemma char_at_append: "char_at (xs @ ys) (length xs + k) = char_at ys k"
  by (simp add: char_at_def nth_append)

lemma char_at_0: "char_at (x # xs) 0 = Some x" "char_at [] 0 = Some (CHR 0x00)"
  by (simp_all add: char_at_def)

lemma char_at_Suc: "char_at (x # xs) (Suc k) = char_at xs k"
  by (simp add: char_at_def)

lemma skip_cr_char_at:
  assumes "length s < 2 ^ 31"
  shows "i \<le> length s \<Longrightarrow>
         skip_cr s i = Some (i + length (takeWhile (\<lambda>c. c = CHR 0x0D) (drop i s)))"
proof (induction "length s - i" arbitrary: i)
  case 0
  then have "i = length s" by simp
  then show ?case
    by (subst skip_cr.simps) (simp add: line_at_char_at [OF assms] char_at_def)
next
  case (Suc n)
  then have lt: "i < length s" by simp
  then have d: "drop i s = s ! i # drop (Suc i) s" by (simp add: Cons_nth_drop_Suc)
  have c: "char_at s i = Some (s ! i)" using lt by (simp add: char_at_def)
  show ?case
  proof (cases "s ! i = CHR 0x0D")
    case True
    from Suc(2) lt have "n = length s - Suc i" "Suc i \<le> length s" by simp_all
    then have "skip_cr s (Suc i) =
                 Some (Suc i + length (takeWhile (\<lambda>c. c = CHR 0x0D) (drop (Suc i) s)))"
      by (rule Suc(1))
    with True show ?thesis
      by (subst skip_cr.simps) (simp add: line_at_char_at [OF assms] c d)
  next
    case False
    then show ?thesis
      by (subst skip_cr.simps) (simp add: line_at_char_at [OF assms] c d)
  qed
qed

lemma hex_chain:
  "sc_and (map_option isxdigit (char_at r 0))
     (sc_and (map_option isxdigit (char_at r 1))
     (sc_and (map_option isblank (char_at r 2))
     (sc_and (map_option isxdigit (char_at r 3))
             (map_option isxdigit (char_at r 4))))) =
   Some (case r of
           a # b # c # d # e # _ \<Rightarrow> isxdigit a \<and> isxdigit b \<and> isblank c \<and> isxdigit d \<and> isxdigit e
         | _ \<Rightarrow> False)"
  by (simp add: sc_and_def char_at_0 char_at_Suc eval_nat_numeral not_xdigit_nul
      split: list.split bool.split)

lemma is_hex_line_pattern:
  assumes "length s < 2 ^ 31"
  shows "is_hex_line s = Some (hex_pattern s)"
proof -
  let ?cr = "\<lambda>c. c = CHR 0x0D"
  let ?i = "length (takeWhile ?cr s)"
  let ?r = "dropWhile ?cr s"
  have sk: "skip_cr s 0 = Some ?i" using skip_cr_char_at [OF assms, of 0] by simp
  have "char_at s (?i + k) = char_at ?r k" for k
    using char_at_append [of "takeWhile ?cr s" ?r k] by simp
  then have rd: "line_at s (?i + k) = char_at ?r k" for k
    by (simp add: line_at_char_at [OF assms])
  have rd0: "line_at s ?i = char_at ?r 0" using rd [of 0] by simp
  show ?thesis
    unfolding is_hex_line_def hex_pattern_def sk option.case rd rd0
    by (rule hex_chain)
qed

lemmas classify_eval = is_hex_line_pattern hex_pattern_def isxdigit_def isblank_def

section \<open>One iteration of the loop\<close>

lemma body_snoc:
  "body k (ds @ [c]) =
     (if even (length ds) then body k ds @ [c]
      else body k ds @ [c] @ seps (k + Suc (length ds div 2)))"
  by (induction k ds rule: body.induct) simp_all

lemma word8_of_nat_eq: "j < 256 \<Longrightarrow> i < 256 \<Longrightarrow> ((of_nat j :: 8 word) = of_nat i) = (j = i)"
  by (simp add: word_of_nat_eq_iff take_bit_nat_eq_self)

lemma num_hex_eq_8: "j \<le> 16 \<Longrightarrow> ((of_nat j :: 8 word) = 8) = (j = 8)"
  using word8_of_nat_eq [of j 8] by simp

lemma num_hex_eq_16: "j \<le> 16 \<Longrightarrow> ((of_nat j :: 8 word) = 16) = (j = 16)"
  using word8_of_nat_eq [of j 16] by simp

lemma num_hex_eq_0: "j \<le> 16 \<Longrightarrow> ((of_nat j :: 8 word) = 0) = (j = 0)"
  using word8_of_nat_eq [of j 0] by simp

lemma num_hex_inc_8: "k < 16 \<Longrightarrow> ((of_nat k :: 8 word) + 1 = 8) = (k = 7)"
  using num_hex_eq_8 [of "Suc k"] by (simp add: add.commute)

lemma num_hex_inc_16: "k < 16 \<Longrightarrow> ((of_nat k :: 8 word) + 1 = 16) = (k = 15)"
  using num_hex_eq_16 [of "Suc k"] by (simp add: add.commute)

lemma step_skip: "\<not> isxdigit c \<Longrightarrow> loop_body c st = st"
  by (cases st) (simp add: loop_body_def isxdigit_tolower)

lemma step_even:
  assumes "even (length cur)" "length cur < 32" "isxdigit c"
  shows "loop_body c (mid p cur, w) = (mid p (cur @ [tolower c]), w)"
proof -
  have k: "length cur div 2 \<le> 16" "length cur div 2 \<noteq> 16" using assms(2) by auto
  have m: "length cur mod 2 = 0" "Suc (length cur) mod 2 = 1"
    "Suc (length cur) div 2 = length cur div 2"
    using assms(1) by auto
  show ?thesis
    using assms(1,3) k m
    by (simp add: loop_body_def mid_def Let_def isxdigit_tolower body_snoc num_hex_eq_16)
qed

lemma step_odd:
  assumes "odd (length cur)" "length cur < 31" "isxdigit c"
  shows "loop_body c (mid p cur, w) = (mid p (cur @ [tolower c]), w)"
proof -
  let ?k = "length cur div 2"
  have k: "?k < 16" "?k \<noteq> 15" using assms(1,2) by presburger+
  have m: "length cur mod 2 = 1" "Suc (length cur) mod 2 = 0" "Suc (length cur) div 2 = Suc ?k"
    using assms(1) by presburger+
  show ?thesis
    using assms(1,3) k m
    by (simp add: loop_body_def mid_def Let_def isxdigit_tolower body_snoc seps_def
        num_hex_inc_16 num_hex_inc_8)
qed

lemma step_flush:
  assumes "length cur = 31" "isxdigit c" "gLinePrefix w = p"
  shows "loop_body c (mid p cur, w) =
           (mid (p + 16) [],
            w\<lparr>ofs := ofs w @ [hex06 (unat p) @ '' '' @ body 0 (cur @ [tolower c])],
              gLinePrefix := p + 16\<rparr>)"
proof -
  have m: "length cur mod 2 = 1" "odd (length cur)" "length cur div 2 = 15"
    using assms(1) by simp_all
  show ?thesis
    using assms(2,3) m
    by (simp add: loop_body_def mid_def Let_def isxdigit_tolower body_snoc seps_def
        snprintf_06x_16)
qed

section \<open>The whole loop\<close>

lemma gen_loop_drop:
  assumes "length hex_str < 2 ^ 32"
  shows "unat i \<le> length hex_str \<Longrightarrow>
         gen_loop hex_str i st = Some (run_loop (drop (unat i) hex_str) st)"
proof (induction "length hex_str - unat i" arbitrary: i st)
  case 0
  then have "unat i = length hex_str" by simp
  then show ?case by (subst gen_loop.simps) (simp add: run_loop_def)
next
  case (Suc n)
  then have lt: "unat i < length hex_str" by simp
  with assms have "unat i + 1 < 2 ^ 32" by simp
  then have u: "unat (i + 1) = unat i + 1"
    by (simp add: unat_add_lem [THEN iffD1])
  from Suc(2) u lt have "n = length hex_str - unat (i + 1)" by simp
  moreover from u lt have "unat (i + 1) \<le> length hex_str" by simp
  ultimately have ih:
    "gen_loop hex_str (i + 1) st' = Some (run_loop (drop (unat (i + 1)) hex_str) st')" for st'
    using Suc(1) by blast
  have d: "drop (unat i) hex_str = hex_str ! unat i # drop (unat i + 1) hex_str"
    using lt by (simp add: Cons_nth_drop_Suc)
  show ?case
    using lt by (subst gen_loop.simps) (simp add: ih u d run_loop_def)
qed

lemma gen_loop_run:
  "length hex_str < 2 ^ 32 \<Longrightarrow> gen_loop hex_str 0 st = Some (run_loop hex_str st)"
  using gen_loop_drop [of hex_str 0 st] by simp

lemma rows_from_Nil: "rows_from p [] = []"
  by (simp add: rows_from.simps)

lemma rows_from_Cons:
  "ds \<noteq> [] \<Longrightarrow>
   rows_from p ds = (hex06 (unat p) @ '' '' @ body 0 (take 32 ds)) # rows_from (p + 16) (drop 32 ds)"
  by (subst rows_from.simps) simp

lemma finish_mid:
  assumes "length cur < 32"
  shows "finish (mid p cur, w) =
           (if cur = [] then w else w\<lparr>ofs := ofs w @ [hex06 (unat p) @ '' '' @ body 0 cur]\<rparr>)"
proof (cases "length cur mod 2 = 0")
  case True
  with assms have "length cur div 2 \<le> 16" "(length cur div 2 = 0) = (cur = [])" by auto
  with True show ?thesis by (simp add: finish_def mid_def Let_def num_hex_eq_0)
next
  case False
  then have "length cur mod 2 = 1" "cur \<noteq> []" by auto
  then show ?thesis by (simp add: finish_def mid_def Let_def)
qed

lemma run_loop_mid:
  "length cur < 32 \<Longrightarrow> gLinePrefix w = p \<Longrightarrow>
   finish (run_loop cs (mid p cur, w)) =
     w\<lparr>ofs := ofs w @ rows_from p (cur @ digits cs),
       gLinePrefix := p + 16 * of_nat (length (cur @ digits cs) div 32)\<rparr>"
proof (induction cs arbitrary: cur w p)
  case Nil
  then show ?case
    by (cases "cur = []") (simp_all add: run_loop_def finish_mid digits_def rows_from_Cons rows_from_Nil)
next
  case (Cons c cs)
  have unfold: "run_loop (c # cs) st = run_loop cs (loop_body c st)" for st
    by (simp add: run_loop_def)
  show ?case
  proof (cases "isxdigit c")
    case False
    then show ?thesis using Cons by (simp add: unfold step_skip digits_def)
  next
    case True
    then have dg: "digits (c # cs) = tolower c # digits cs" by (simp add: digits_def)
    show ?thesis
    proof (cases "length cur = 31")
      case full: True
      let ?w = "w\<lparr>ofs := ofs w @ [hex06 (unat p) @ '' '' @ body 0 (cur @ [tolower c])],
                   gLinePrefix := p + 16\<rparr>"
      have "finish (run_loop (c # cs) (mid p cur, w)) = finish (run_loop cs (mid (p + 16) [], ?w))"
        using full True Cons.prems by (simp add: unfold step_flush)
      also have "\<dots> = ?w\<lparr>ofs := ofs ?w @ rows_from (p + 16) ([] @ digits cs),
                    gLinePrefix := p + 16 + 16 * of_nat (length ([] @ digits cs) div 32)\<rparr>"
        by (rule Cons.IH) simp_all
      also have "\<dots> = w\<lparr>ofs := ofs w @ rows_from p (cur @ digits (c # cs)),
                    gLinePrefix := p + 16 * of_nat (length (cur @ digits (c # cs)) div 32)\<rparr>"
      proof -
        have "(length (digits cs) + 32) div 32 = Suc (length (digits cs) div 32)" by simp
        moreover have "rows_from p (cur @ tolower c # digits cs) =
            (hex06 (unat p) @ '' '' @ body 0 (cur @ [tolower c])) # rows_from (p + 16) (digits cs)"
          using full by (subst rows_from_Cons) simp_all
        ultimately show ?thesis
          using full by (simp add: dg algebra_simps)
      qed
      finally show ?thesis .
    next
      case False
      with Cons.prems have lt: "length cur < 31" by simp
      have "loop_body c (mid p cur, w) = (mid p (cur @ [tolower c]), w)"
        using lt True Cons.prems by (cases "even (length cur)") (simp_all add: step_even step_odd)
      then have "finish (run_loop (c # cs) (mid p cur, w)) =
                 finish (run_loop cs (mid p (cur @ [tolower c]), w))"
        by (simp add: unfold)
      also have "\<dots> = w\<lparr>ofs := ofs w @ rows_from p ((cur @ [tolower c]) @ digits cs),
                    gLinePrefix := p + 16 * of_nat (length ((cur @ [tolower c]) @ digits cs) div 32)\<rparr>"
        using lt Cons.prems by (intro Cons.IH) simp_all
      finally show ?thesis by (simp add: dg)
    qed
  qed
qed

section \<open>The formatter in closed form\<close>

lemma gen_hexdump_reject:
  "is_hex_line hex_str = Some False \<Longrightarrow> gen_hexdump hex_str w = Some (w\<lparr>gLinePrefix := 0\<rparr>)"
  by (simp add: gen_hexdump_def preprocess_hex_str_def)

lemma gen_hexdump_accept:
  assumes "is_hex_line hex_str = Some True" "length hex_str < 2 ^ 32"
  shows "gen_hexdump hex_str w =
           Some (w\<lparr>ofs := ofs w @ rows_from (gLinePrefix w) (digits hex_str),
                   gLinePrefix := gLinePrefix w + 16 * of_nat (length (digits hex_str) div 32)\<rparr>)"
proof -
  let ?p = "gLinePrefix w"
  let ?l = "snprintf_06x 16 ?p"
  have init: "\<lparr>line = ?l, cidx = of_nat (length ?l), last_space = of_nat (length ?l) - 1,
               num_hex = 0\<rparr> = mid ?p []"
    by (simp add: mid_def snprintf_06x_16)
  have "finish (run_loop hex_str (mid ?p [], w)) =
          w\<lparr>ofs := ofs w @ rows_from ?p ([] @ digits hex_str),
            gLinePrefix := ?p + 16 * of_nat (length ([] @ digits hex_str) div 32)\<rparr>"
    by (rule run_loop_mid) simp_all
  moreover obtain v w' where r: "run_loop hex_str (mid ?p [], w) = (v, w')"
    by (cases "run_loop hex_str (mid ?p [], w)")
  ultimately have
    "(if num_hex v \<noteq> 0 \<or> cidx v - last_space v > 1 then w'\<lparr>ofs := ofs w' @ [line v]\<rparr> else w') =
       w\<lparr>ofs := ofs w @ rows_from ?p (digits hex_str),
         gLinePrefix := ?p + 16 * of_nat (length (digits hex_str) div 32)\<rparr>"
    by (simp add: finish_def)
  then show ?thesis
    using assms r
    by (simp add: gen_hexdump_def preprocess_hex_str_def Let_def init gen_loop_run)
qed

text \<open>
  For a line within the range of the classifier's \<open>int\<close> index the formatter returns,
  and its result is the state below.
\<close>

lemma gen_hexdump_closed:
  assumes "length hex_str < 2 ^ 31"
  shows "gen_hexdump hex_str w =
           Some (if hex_pattern hex_str
                 then w\<lparr>ofs := ofs w @ rows_from (gLinePrefix w) (digits hex_str),
                        gLinePrefix := gLinePrefix w + 16 * of_nat (length (digits hex_str) div 32)\<rparr>
                 else w\<lparr>gLinePrefix := 0\<rparr>)"
proof -
  from assms have "length hex_str < 2 ^ 32" by simp
  with is_hex_line_pattern [OF assms] show ?thesis
    by (simp add: gen_hexdump_accept gen_hexdump_reject)
qed

section \<open>The rows\<close>

lemma length_rows_from: "length (rows_from p ds) = (length ds + 31) div 32"
proof (induction p ds rule: rows_from.induct)
  case (1 p ds)
  show ?case
  proof (cases "ds = []")
    case True
    then show ?thesis by (simp add: rows_from_Nil)
  next
    case False
    then have pos: "0 < length ds" by simp
    have "(length ds + 31) div 32 = Suc ((length ds - 32 + 31) div 32)"
    proof (cases "length ds \<le> 32")
      case True
      with pos have "(length ds + 31) div 32 = 1"
        by (intro div_nat_eqI) (simp_all add: Suc_le_eq)
      with True show ?thesis by simp
    next
      case False
      then obtain n where "length ds = n + 32" using le_Suc_ex [of 32 "length ds"] by auto
      then show ?thesis by simp
    qed
    moreover have "length (rows_from p ds) = Suc (length (rows_from (p + 16) (drop 32 ds)))"
      by (subst rows_from_Cons [OF False]) simp
    ultimately show ?thesis using 1 [OF False] by simp
  qed
qed

lemma nth_rows_from:
  "k < length (rows_from p ds) \<Longrightarrow>
   rows_from p ds ! k =
     hex06 (unat (p + 16 * of_nat k)) @ '' '' @ body 0 (take 32 (drop (32 * k) ds))"
proof (induction p ds arbitrary: k rule: rows_from.induct)
  case (1 p ds)
  from 1(2) have ne: "ds \<noteq> []" by (auto simp: rows_from_Nil)
  show ?case
  proof (cases k)
    case 0
    with ne show ?thesis by (subst rows_from_Cons [OF ne]) simp
  next
    case (Suc j)
    with 1(2) have "j < length (rows_from (p + 16) (drop 32 ds))"
      by (subst (asm) rows_from_Cons [OF ne]) simp
    from 1(1) [OF ne this]
    have "rows_from (p + 16) (drop 32 ds) ! j =
            hex06 (unat (p + 16 + 16 * of_nat j)) @ '' ''
              @ body 0 (take 32 (drop (32 * j) (drop 32 ds)))" .
    moreover have "p + 16 + 16 * of_nat j = p + 16 * of_nat (Suc j)" by simp
    moreover have "drop (32 * j) (drop 32 ds) = drop (32 * Suc j) ds" by (simp add: add.commute)
    moreover have "rows_from p ds ! k = rows_from (p + 16) (drop 32 ds) ! j"
      using Suc by (subst rows_from_Cons [OF ne]) simp
    ultimately show ?thesis using Suc by simp
  qed
qed

text \<open>The digits of the \<open>k\<close>-th row of a stream.\<close>

lemma rows_index:
  assumes "k < (length ds + 31) div 32"
  shows "32 * k < length ds"
proof -
  from assms have "Suc k \<le> (length ds + 31) div 32" by simp
  then have "Suc k * 32 \<le> length ds + 31"
    by (simp only: less_eq_div_iff_mult_less_eq [of 32, OF zero_less_numeral])
  then show ?thesis by simp
qed

lemma chunk_length:
  assumes "k < (length ds + 31) div 32"
  shows "0 < length (take 32 (drop (32 * k) ds))"
    and "length (take 32 (drop (32 * k) ds)) \<le> 32"
    and "Suc k < (length ds + 31) div 32 \<Longrightarrow> length (take 32 (drop (32 * k) ds)) = 32"
proof -
  from rows_index [OF assms] show "0 < length (take 32 (drop (32 * k) ds))" by simp
  show "length (take 32 (drop (32 * k) ds)) \<le> 32" by simp
  assume "Suc k < (length ds + 31) div 32"
  from rows_index [OF this] show "length (take 32 (drop (32 * k) ds)) = 32" by simp
qed

lemma offset_of_row: "offset_of (hex06 n @ '' '' @ x) = hex06 n"
  using hex06_no_space [of n] by (simp add: offset_of_def takeWhile_append2)

lemma filter_seps: "filter (\<lambda>c. c \<noteq> CHR '' '') (seps j) = []"
  by (simp add: seps_def)

lemma filter_body:
  "\<forall>c \<in> set ds. isxdigit c \<Longrightarrow> filter (\<lambda>c. c \<noteq> CHR '' '') (body k ds) = ds"
proof (induction k ds rule: body.induct)
  case (1 k a b ds)
  then show ?case by (simp add: filter_seps xdigit_not_space)
qed (simp_all add: xdigit_not_space)

lemma payload_row:
  assumes "\<forall>c \<in> set ds. isxdigit c"
  shows "payload (hex06 n @ '' '' @ body k ds) = ds"
proof -
  have "dropWhile (\<lambda>c. c \<noteq> CHR '' '') (hex06 n @ '' '' @ body k ds) = '' '' @ body k ds"
    using hex06_no_space [of n] by (simp add: dropWhile_append2)
  then show ?thesis by (simp add: payload_def filter_body [OF assms])
qed

lemma payload_rows_from:
  "\<forall>c \<in> set ds. isxdigit c \<Longrightarrow> concat (map payload (rows_from p ds)) = ds"
proof (induction p ds rule: rows_from.induct)
  case (1 p ds)
  show ?case
  proof (cases "ds = []")
    case True
    then show ?thesis by (simp add: rows_from_Nil)
  next
    case False
    from 1(2) have t: "\<forall>c \<in> set (take 32 ds). isxdigit c" and d: "\<forall>c \<in> set (drop 32 ds). isxdigit c"
      by (auto dest: in_set_takeD in_set_dropD)
    from 1(1) [OF False d] payload_row [OF t, of "unat p" 0] show ?thesis
      by (subst rows_from_Cons [OF False]) simp
  qed
qed

lemma body_layout:
  "k + length (pairs ds) \<le> 16 \<Longrightarrow>
   body k ds =
     layout (Suc k) (pairs ds) @
       (if ds \<noteq> [] \<and> even (length ds) then seps (k + length ds div 2) else [])"
proof (induction k ds rule: body.induct)
  case (1 k a b ds)
  show ?case
  proof (cases "ds = []")
    case True
    then show ?thesis by simp
  next
    case False
    then obtain g gs where p: "pairs ds = g # gs" by (cases ds rule: pairs.cases) auto
    with 1(2) have "Suc k < 16" by simp
    then have s: "seps (Suc k) = (if Suc k = 8 then ''  '' else '' '')" by (simp add: seps_def)
    from 1(2) have "Suc k + length (pairs ds) \<le> 16" by simp
    from 1(1) [OF this] False p s show ?thesis by simp
  qed
qed simp_all

lemma length_pairs: "length (pairs ds) = (length ds + 1) div 2"
  by (induction ds rule: pairs.induct) simp_all

lemma pairs_complete: "even (length ds) \<Longrightarrow> \<forall>g \<in> set (pairs ds). length g = 2"
  by (induction ds rule: pairs.induct) simp_all

lemma rows_count_aux:
  assumes "r < 32"
  shows "((32 * q + r + 31) div 32 :: nat) = q + (if r = 0 then 0 else 1)"
proof (cases "r = 0")
  case True
  have "(32 * q + 31) div 32 = q" by (intro div_nat_eqI) simp_all
  with True show ?thesis by simp
next
  case False
  with assms have "(32 * q + r + 31) div 32 = Suc q" by (intro div_nat_eqI) simp_all
  with False show ?thesis by simp
qed

lemma rows_count: "((n::nat) + 31) div 32 = n div 32 + (if n mod 32 = 0 then 0 else 1)"
  using rows_count_aux [of "n mod 32" "n div 32"] by simp

lemma unat_offset: "16 * k < 2 ^ 32 \<Longrightarrow> unat (16 * of_nat k :: 32 word) = 16 * k"
proof -
  assume a: "16 * k < 2 ^ 32"
  have "(16 * of_nat k :: 32 word) = of_nat (16 * k)" by simp
  moreover have "unat (of_nat (16 * k) :: 32 word) = 16 * k"
    using a by (simp only: unat_of_nat) simp
  ultimately show ?thesis by simp
qed

lemma full_chunk_layout:
  assumes "length c = 32"
  shows "body 0 c = layout 1 (pairs c)" and "length (pairs c) = 16"
    and "\<forall>g \<in> set (pairs c). length g = 2"
proof -
  from assms show p: "length (pairs c) = 16" by (simp add: length_pairs)
  from assms have "c \<noteq> []" "even (length c)" "length c div 2 = 16" by auto
  with body_layout [of 0 c] p show "body 0 c = layout 1 (pairs c)" by (simp add: seps_def)
  from assms show "\<forall>g \<in> set (pairs c). length g = 2" by (intro pairs_complete) simp
qed


lemma all_full_rows:
  assumes "length D = 32 * N" and "length D < 2 ^ 32" and "k < N"
  shows "rows_from 0 D ! k = hex06 (16 * k) @ '' '' @ layout 1 (pairs (take 32 (drop (32 * k) D)))"
    and "length (pairs (take 32 (drop (32 * k) D))) = 16"
    and "\<forall>g \<in> set (pairs (take 32 (drop (32 * k) D))). length g = 2"
proof -
  define c where "c = take 32 (drop (32 * k) D)"
  from assms(1,3) have c: "length c = 32" by (simp add: c_def)
  from assms have "16 * k < 2 ^ 32" by simp
  then have u: "unat (16 * of_nat k :: 32 word) = 16 * k" by (rule unat_offset)
  from assms(1,3) have "k < length (rows_from 0 D)" by (simp add: length_rows_from rows_count)
  then have "rows_from 0 D ! k = hex06 (unat (0 + 16 * of_nat k :: 32 word)) @ '' '' @ body 0 c"
    unfolding c_def by (rule nth_rows_from)
  with u full_chunk_layout(1) [OF c]
  show "rows_from 0 D ! k = hex06 (16 * k) @ '' '' @ layout 1 (pairs (take 32 (drop (32 * k) D)))"
    by (simp add: c_def)
  from full_chunk_layout(2) [OF c]
  show "length (pairs (take 32 (drop (32 * k) D))) = 16"
    unfolding c_def .
  from full_chunk_layout(3) [OF c]
  show "\<forall>g \<in> set (pairs (take 32 (drop (32 * k) D))). length g = 2"
    unfolding c_def .
qed

lemma returnsE:
  assumes "case x of None \<Rightarrow> False | Some y \<Rightarrow> P y"
  obtains y where "x = Some y" and "P y"
  using assms by (cases x) auto

lemma in_rows_from:
  assumes "r \<in> set (rows_from p ds)"
  obtains k where "k < (length ds + 31) div 32"
    and "r = hex06 (unat (p + 16 * of_nat k)) @ '' '' @ body 0 (take 32 (drop (32 * k) ds))"
proof -
  from assms obtain k where k: "k < length (rows_from p ds)" "r = rows_from p ds ! k"
    by (auto simp: in_set_conv_nth)
  from k(1) have "k < (length ds + 31) div 32" by (simp add: length_rows_from)
  moreover from k have
    "r = hex06 (unat (p + 16 * of_nat k)) @ '' '' @ body 0 (take 32 (drop (32 * k) ds))"
    by (simp add: nth_rows_from)
  ultimately show thesis by (rule that)
qed

lemma payload_prefix_only: "payload (snprintf_06x 16 q) = []"
  using payload_row [of "[]" "unat q" 0] by (simp add: snprintf_06x_16)

lemma half_row_count:
  assumes "16 dvd (n::nat)"
  shows "(n + 31) div 32 = (n + 16) div 32"
proof -
  from assms obtain m where m: "n = 16 * m" by (auto simp: dvd_def)
  show ?thesis
  proof (cases "even m")
    case True
    then obtain j where "m = 2 * j" by (auto simp: dvd_def)
    with m have n: "n = 32 * j" by simp
    have "(32 * j + 31) div 32 = j" "(32 * j + 16) div 32 = j"
      by (intro div_nat_eqI; simp)+
    with n show ?thesis by simp
  next
    case False
    then obtain j where "m = 2 * j + 1" by (auto elim: oddE)
    with m have n: "n = 32 * j + 16" by simp
    have "(32 * j + 16 + 31) div 32 = Suc j" "(32 * j + 16 + 16) div 32 = Suc j"
      by (intro div_nat_eqI; simp)+
    with n show ?thesis by simp
  qed
qed

lemma half_chunk:
  assumes "16 dvd length ds" and "k < (length ds + 31) div 32"
  shows "length (take 32 (drop (32 * k) ds)) = 16 \<or> length (take 32 (drop (32 * k) ds)) = 32"
proof -
  from assms(1) obtain m where m: "length ds = 16 * m" by (auto simp: dvd_def)
  from rows_index [OF assms(2)] m have "2 * k < m" by simp
  then have "\<exists>j. m = Suc (2 * k + j)" by (rule less_imp_Suc_add)
  then obtain j where "m = Suc (2 * k + j)" ..
  with m have "length ds - 32 * k = 16 * Suc j" by simp
  define c where "c = length (take 32 (drop (32 * k) ds))"
  from \<open>length ds - 32 * k = 16 * Suc j\<close> have t: "c = min (16 * Suc j) 32"
    by (simp add: c_def)
  have "c = 16 \<or> c = 32"
  proof (cases j)
    case 0
    with t show ?thesis by simp
  next
    case (Suc i)
    with t show ?thesis by simp
  qed
  then show ?thesis unfolding c_def .
qed

lemma last_row:
  assumes "length ds mod 32 \<noteq> 0"
  shows "rows_from p ds \<noteq> []"
    and "last (rows_from p ds) =
           hex06 (unat (p + 16 * of_nat (length ds div 32))) @ '' ''
             @ body 0 (drop (32 * (length ds div 32)) ds)"
proof -
  let ?q = "length ds div 32"
  from assms have len: "length (rows_from p ds) = Suc ?q"
    by (simp add: length_rows_from rows_count)
  then show ne: "rows_from p ds \<noteq> []" by auto
  have "length (drop (32 * ?q) ds) = length ds mod 32"
    by (simp add: modulo_nat_def mult.commute)
  then have t: "take 32 (drop (32 * ?q) ds) = drop (32 * ?q) ds" by simp
  from ne len have "last (rows_from p ds) = rows_from p ds ! ?q"
    by (simp add: last_conv_nth)
  also from len have "\<dots> = hex06 (unat (p + 16 * of_nat ?q)) @ '' ''
      @ body 0 (take 32 (drop (32 * ?q) ds))"
    by (intro nth_rows_from) simp
  finally show "last (rows_from p ds) =
      hex06 (unat (p + 16 * of_nat ?q)) @ '' '' @ body 0 (drop (32 * ?q) ds)"
    by (simp only: t)
qed

lemma seps_ends_space: "j \<noteq> 16 \<Longrightarrow> \<exists>y. seps j = y @ '' ''"
  by (simp add: seps_def)

lemma body_even_ends_space:
  assumes "even (length xs)" and "length xs < 32"
  shows "\<exists>y. '' '' @ body 0 xs = y @ '' ''"
proof (cases "xs = []")
  case True
  then show ?thesis by simp
next
  case False
  from assms have "length (pairs xs) \<le> 16" by (simp add: length_pairs)
  with body_layout [of 0 xs] False assms(1)
  have b: "body 0 xs = layout 1 (pairs xs) @ seps (length xs div 2)" by simp
  from assms(2) have "length xs div 2 \<noteq> 16" by simp
  then obtain y where "seps (length xs div 2) = y @ '' ''" using seps_ends_space by blast
  with b have "'' '' @ body 0 xs = ('' '' @ layout 1 (pairs xs) @ y) @ '' ''" by simp
  then show ?thesis by blast
qed

lemma dangling_row:
  assumes "odd (length c)" and "length c < 32" and "\<forall>x \<in> set c. isxdigit x"
  shows "drop (length (h @ '' '' @ body 0 c) - 2) (h @ '' '' @ body 0 c) = [CHR '' '', last c]"
    and "length c = 1 \<Longrightarrow> h @ '' '' @ body 0 c = h @ '' '' @ [last c]"
proof -
  from assms(1) have ne: "c \<noteq> []" by auto
  then have c: "c = butlast c @ [last c]" by simp
  from assms(1) ne have ev: "even (length (butlast c))" by simp
  from assms(2) have lt: "length (butlast c) < 32" by simp
  have "body 0 c = body 0 (butlast c @ [last c])" using c by simp
  also have "\<dots> = body 0 (butlast c) @ [last c]" using ev by (simp only: body_snoc if_True)
  finally have b: "body 0 c = body 0 (butlast c) @ [last c]" .
  from body_even_ends_space [OF ev lt] obtain y where y: "'' '' @ body 0 (butlast c) = y @ '' ''"
    by blast
  have "h @ '' '' @ body 0 c = (h @ y) @ [CHR '' '', last c]"
    using b y by simp
  then show "drop (length (h @ '' '' @ body 0 c) - 2) (h @ '' '' @ body 0 c) = [CHR '' '', last c]"
    by (simp only: length_append list.size drop_append) simp
  assume "length c = 1"
  then have "butlast c = []" by (cases c) simp_all
  with b show "h @ '' '' @ body 0 c = h @ '' '' @ [last c]" by simp
qed


lemma row_text:
  assumes "0 < length c" and "length c \<le> 32"
  shows "body 0 c =
           layout 1 (pairs c) @
             (if odd (length c) \<or> length (pairs c) = 16 then []
              else if length (pairs c) = 8 then ''  '' else '' '')"
proof -
  from assms(2) have "length (pairs c) \<le> 16" by (simp add: length_pairs)
  with body_layout [of 0 c] assms(1)
  have b: "body 0 c = layout 1 (pairs c) @ (if even (length c) then seps (length c div 2) else [])"
    by simp
  show ?thesis
  proof (cases "even (length c)")
    case True
    then have "length (pairs c) = length c div 2" by (simp add: length_pairs)
    with b True show ?thesis by (simp add: seps_def)
  next
    case False
    with b show ?thesis by simp
  qed
qed

section \<open>Sequences of calls\<close>

lemma invocations_accept:
  "\<forall>l \<in> set ls. is_hex_line l = Some True \<and> length l < 2 ^ 32 \<Longrightarrow>
   \<exists>q. invocations ls w = Some (w\<lparr>ofs := ofs w @ all_rows (gLinePrefix w) ls, gLinePrefix := q\<rparr>)"
proof (induction ls arbitrary: w)
  case Nil
  have "w = w\<lparr>ofs := ofs w @ all_rows (gLinePrefix w) [], gLinePrefix := gLinePrefix w\<rparr>" by simp
  then show ?case by (metis invocations.simps(1))
next
  case (Cons l ls)
  let ?w = "w\<lparr>ofs := ofs w @ rows_from (gLinePrefix w) (digits l),
               gLinePrefix := gLinePrefix w + 16 * of_nat (length (digits l) div 32)\<rparr>"
  from Cons.prems have g: "gen_hexdump l w = Some ?w" by (simp add: gen_hexdump_accept)
  from Cons.prems have "\<forall>l \<in> set ls. is_hex_line l = Some True \<and> length l < 2 ^ 32" by simp
  from Cons.IH [OF this, of ?w] obtain q where
    "invocations ls ?w = Some (?w\<lparr>ofs := ofs ?w @ all_rows (gLinePrefix ?w) ls, gLinePrefix := q\<rparr>)"
    by blast
  with g have "invocations (l # ls) w =
      Some (w\<lparr>ofs := ofs w @ all_rows (gLinePrefix w) (l # ls), gLinePrefix := q\<rparr>)"
    by simp
  then show ?case by blast
qed

lemma complete_row_iff:
  assumes "\<forall>x \<in> set c. isxdigit x"
  shows "complete_row (hex06 n @ '' '' @ body 0 c) = (length c = 32)"
  using payload_row [OF assms, of n 0] by (simp add: complete_row_def)

lemma rows_from_xdigit_chunk:
  "\<forall>x \<in> set ds. isxdigit x \<Longrightarrow> \<forall>x \<in> set (take 32 ds). isxdigit x"
  by (auto dest: in_set_takeD)

lemma complete_rows_before:
  assumes "\<forall>x \<in> set ds. isxdigit x"
  shows "k < length (rows_from p ds) \<Longrightarrow> length (filter complete_row (take k (rows_from p ds))) = k"
  using assms
proof (induction p ds arbitrary: k rule: rows_from.induct)
  case (1 p ds)
  show ?case
  proof (cases k)
    case 0
    then show ?thesis by simp
  next
    case (Suc j)
    from 1(2) have ne: "ds \<noteq> []" by (auto simp: rows_from_Nil)
    note r = rows_from_Cons [OF ne, of p]
    from 1(2) Suc have j: "j < length (rows_from (p + 16) (drop 32 ds))" by (simp add: r)
    then have "drop 32 ds \<noteq> []" by (auto simp: rows_from_Nil)
    then have "length (take 32 ds) = 32" by simp
    moreover have x: "\<forall>x \<in> set (take 32 ds). isxdigit x"
      using 1(3) by (rule rows_from_xdigit_chunk)
    ultimately have c: "complete_row (hex06 (unat p) @ '' '' @ body 0 (take 32 ds))"
      by (simp only: complete_row_iff [OF x])
    from 1(3) have "\<forall>x \<in> set (drop 32 ds). isxdigit x" by (auto dest: in_set_dropD)
    from 1(1) [OF ne j this]
    have "length (filter complete_row (take j (rows_from (p + 16) (drop 32 ds)))) = j" .
    with c Suc show ?thesis by (simp add: r)
  qed
qed

lemma complete_rows_total:
  assumes "\<forall>x \<in> set ds. isxdigit x"
  shows "length (filter complete_row (rows_from p ds)) = length ds div 32"
  using assms
proof (induction p ds rule: rows_from.induct)
  case (1 p ds)
  show ?case
  proof (cases "ds = []")
    case True
    then show ?thesis by (simp add: rows_from_Nil)
  next
    case False
    note r = rows_from_Cons [OF False, of p]
    have x: "\<forall>x \<in> set (take 32 ds). isxdigit x"
      using 1(2) by (rule rows_from_xdigit_chunk)
    from 1(2) have "\<forall>x \<in> set (drop 32 ds). isxdigit x" by (auto dest: in_set_dropD)
    from 1(1) [OF False this]
    have ih: "length (filter complete_row (rows_from (p + 16) (drop 32 ds))) = (length ds - 32) div 32"
      by simp
    show ?thesis
    proof (cases "32 \<le> length ds")
      case True
      then obtain m where m: "length ds = m + 32" using le_Suc_ex [of 32 "length ds"] by auto
      then have "length (take 32 ds) = 32" by simp
      then have "complete_row (hex06 (unat p) @ '' '' @ body 0 (take 32 ds))"
        by (simp only: complete_row_iff [OF x])
      with ih m show ?thesis by (simp add: r)
    next
      case False
      then have "length (take 32 ds) \<noteq> 32" by simp
      then have "\<not> complete_row (hex06 (unat p) @ '' '' @ body 0 (take 32 ds))"
        by (simp only: complete_row_iff [OF x]) simp
      with ih False show ?thesis by (simp add: r)
    qed
  qed
qed

lemma offset_all_rows:
  "k < length (all_rows p ls) \<Longrightarrow>
   offset_of (all_rows p ls ! k) =
     hex06 (unat (p + 16 * of_nat (length (filter complete_row (take k (all_rows p ls))))))"
proof (induction ls arbitrary: p k)
  case Nil
  then show ?case by simp
next
  case (Cons l ls)
  let ?A = "rows_from p (digits l)"
  let ?p = "p + 16 * of_nat (length (digits l) div 32)"
  let ?B = "all_rows ?p ls"
  have ab: "all_rows p (l # ls) = ?A @ ?B" by simp
  show ?case
  proof (cases "k < length ?A")
    case True
    then have "(?A @ ?B) ! k = ?A ! k" "take k (?A @ ?B) = take k ?A"
      by (simp_all add: nth_append)
    moreover from True have "length (filter complete_row (take k ?A)) = k"
      by (intro complete_rows_before digits_xdigit)
    moreover from True have "offset_of (?A ! k) = hex06 (unat (p + 16 * of_nat k))"
      by (simp only: nth_rows_from offset_of_row)
    ultimately show ?thesis by (simp only: ab)
  next
    case False
    define j where "j = k - length ?A"
    from False Cons.prems have j: "j < length ?B" "k = length ?A + j" by (simp_all add: j_def)
    have n: "(?A @ ?B) ! k = ?B ! j" using j(2) by (simp add: nth_append)
    have t: "take k (?A @ ?B) = ?A @ take j ?B" using j(2) by simp
    have c: "length (filter complete_row (take k (?A @ ?B))) =
               length (digits l) div 32 + length (filter complete_row (take j ?B))"
      unfolding t using complete_rows_total [OF digits_xdigit, of p l] by simp
    from Cons.IH [OF j(1)]
    have "offset_of (?B ! j) =
            hex06 (unat (?p + 16 * of_nat (length (filter complete_row (take j ?B)))))" .
    moreover have "?p + 16 * of_nat (length (filter complete_row (take j ?B))) =
        p + 16 * of_nat (length (digits l) div 32 + length (filter complete_row (take j ?B)))"
      by (simp add: algebra_simps)
    ultimately show ?thesis by (simp only: ab n c)
  qed
qed

lemma replicate_rows:
  assumes "length (digits l) = 32"
  shows "all_rows p (replicate n l) =
           map (\<lambda>j. hex06 (unat (p + 16 * of_nat j)) @ '' '' @ body 0 (digits l)) [0..<n]"
proof (induction n arbitrary: p)
  case 0
  show ?case by simp
next
  case (Suc n)
  from assms have ne: "digits l \<noteq> []" by auto
  from assms have one: "rows_from p (digits l) = [hex06 (unat p) @ '' '' @ body 0 (digits l)]"
    by (simp add: rows_from_Cons [OF ne] rows_from_Nil)
  have sh: "p + 16 * of_nat (32 div 32) + 16 * of_nat j = p + 16 * of_nat (Suc j)" for j
    by simp
  have "all_rows p (replicate (Suc n) l) =
          rows_from p (digits l) @ all_rows (p + 16 * of_nat (32 div 32)) (replicate n l)"
    using assms by simp
  also have "\<dots> = (hex06 (unat p) @ '' '' @ body 0 (digits l)) #
      map (\<lambda>j. hex06 (unat (p + 16 * of_nat (Suc j))) @ '' '' @ body 0 (digits l)) [0..<n]"
    by (simp only: one Suc.IH sh append_Cons append_Nil)
  also have "\<dots> =
      map (\<lambda>j. hex06 (unat (p + 16 * of_nat j)) @ '' '' @ body 0 (digits l)) [0..<Suc n]"
    by (simp only: map_upt_Suc) simp
  finally show ?case .
qed

lemma replicate_run:
  assumes "is_hex_line l = Some True" and "length l < 2 ^ 32" and "length (digits l) = 32"
  shows "case invocations (replicate (Suc n) l) w_init of
           None \<Rightarrow> False
         | Some w \<Rightarrow>
             offset_of (ofs w ! n) = hex06 (unat (16 * of_nat n :: 32 word))
             \<and> length (filter complete_row (take n (ofs w))) = n"
proof -
  let ?f = "\<lambda>j. hex06 (unat (0 + 16 * of_nat j :: 32 word)) @ '' '' @ body 0 (digits l)"
  have "\<forall>x \<in> set (replicate (Suc n) l). is_hex_line x = Some True \<and> length x < 2 ^ 32"
    using assms(1,2) by simp
  from invocations_accept [OF this, of w_init] obtain q where
    g: "invocations (replicate (Suc n) l) w_init =
          Some (w_init\<lparr>ofs := ofs w_init @ all_rows (gLinePrefix w_init) (replicate (Suc n) l),
                  gLinePrefix := q\<rparr>)"
    by blast
  let ?w = "w_init\<lparr>ofs := ofs w_init @ all_rows (gLinePrefix w_init) (replicate (Suc n) l),
                  gLinePrefix := q\<rparr>"
  have o: "ofs ?w = map ?f [0..<Suc n]"
    using replicate_rows [OF assms(3), of 0 "Suc n"] by (simp add: w_init_def)
  have c: "complete_row (?f j)" for j
    using complete_row_iff [OF digits_xdigit, of "unat (0 + 16 * of_nat j :: 32 word)" l] assms(3)
    by simp
  have "map ?f [0..<Suc n] ! n = ?f ([0..<Suc n] ! n)" by (rule nth_map) simp
  moreover have "[0..<Suc n] ! n = n" by (simp add: nth_append)
  ultimately have "ofs ?w ! n = ?f n" unfolding o by (simp only:)
  moreover have "offset_of (?f n) = hex06 (unat (0 + 16 * of_nat n :: 32 word))"
    by (rule offset_of_row)
  ultimately have "offset_of (ofs ?w ! n) = hex06 (unat (0 + 16 * of_nat n :: 32 word))"
    by (simp only:)
  then have a: "offset_of (ofs ?w ! n) = hex06 (unat (16 * of_nat n :: 32 word))"
    by (simp only: add_0)
  have "take n (ofs ?w) = map ?f [0..<n]" unfolding o by (simp add: take_map)
  then have "filter complete_row (take n (ofs ?w)) = map ?f [0..<n]"
    using c by (simp add: filter_map comp_def)
  then have b: "length (filter complete_row (take n (ofs ?w))) = n" by simp
  from a b show ?thesis unfolding g option.case by blast
qed

lemma full_line_facts:
  "is_hex_line full_line = Some True" "length full_line < 2 ^ 32" "length (digits full_line) = 32"
proof -
  show "is_hex_line full_line = Some True" by (simp add: full_line_def classify_eval)
  show "length full_line < 2 ^ 32" by (simp add: full_line_def)
  have "digits full_line = ''000102030405060708090a0b0c0d0e0f''"
    by (simp add: full_line_def digits_def isxdigit_def tolower_def)
  then show "length (digits full_line) = 32" by simp
qed

section \<open>The readers and the example of the header comment\<close>

lemma getlines_Nil: "getlines [] = []"
  by (simp add: getlines.simps)

lemma getlines_line:
  assumes "CHR 0x0A \<notin> set l"
  shows "getlines (l @ CHR 0x0A # cs) = l # getlines cs"
proof -
  have t: "takeWhile (\<lambda>c. c \<noteq> CHR 0x0A) (l @ CHR 0x0A # cs) = l"
    using assms by (induction l) auto
  have d: "dropWhile (\<lambda>c. c \<noteq> CHR 0x0A) (l @ CHR 0x0A # cs) = CHR 0x0A # cs"
    using assms by (induction l) auto
  show ?thesis by (subst getlines.simps) (simp add: t d)
qed

lemma getlines_join:
  "\<forall>l \<in> set ls. CHR 0x0A \<notin> set l \<Longrightarrow>
   getlines (concat (map (\<lambda>l. l @ [CHR 0x0A]) ls)) = ls"
  by (induction ls) (simp_all add: getlines_Nil getlines_line)

lemma read_hex_str_lines:
  assumes "fs fname = Some (concat (map (\<lambda>l. l @ [CHR 0x0A]) ls))"
    and "\<forall>l \<in> set ls. CHR 0x0A \<notin> set l"
  shows "read_hex_str fs fname [] w =
           (of_nat (length (concat (map (\<lambda>l. l @ [CHR 0x0A]) ls))),
            concat (map (\<lambda>l. l @ [CHR 0x0A]) ls), w)"
  using assms by (simp add: read_hex_str_def getlines_join Let_def)

lemma read_hex_gen_dump_lines:
  assumes "fs fin = Some (concat (map (\<lambda>l. l @ [CHR 0x0A]) ls))"
    and "\<forall>l \<in> set ls. CHR 0x0A \<notin> set l"
  shows "read_hex_gen_dump fs fin w = map_option (Pair True) (dump_lines ls w)"
  using assms by (simp add: read_hex_gen_dump_def getlines_join split: option.split)

lemma dump_lines_invocations: "dump_lines ls w = invocations (filter (\<lambda>l. l \<noteq> []) ls) w"
  by (induction ls arbitrary: w) (simp_all split: option.split)

lemma example_read:
  "read_hex_str [''in.txt'' \<mapsto> example_hex_str] ''in.txt'' [] w =
     (of_nat (length example_hex_str), example_hex_str, w)"
  unfolding example_hex_str_def
  by (rule read_hex_str_lines) (simp_all add: example_lines_def)

lemma example_with_blank:
  "gen_hexdump example_spaced w_init =
     Some (w_init\<lparr>ofs := butlast example_dump @ [last example_dump @ '' ''],
                   gLinePrefix := 64\<rparr>)"
proof -
  have a: "is_hex_line example_spaced = Some True"
    by (simp add: example_spaced_def example_hex_str_def example_lines_def classify_eval)
  have l: "length example_spaced < 2 ^ 32"
    by (simp add: example_spaced_def example_hex_str_def example_lines_def)
  have d: "digits example_spaced =
      ''c2ef0a0000918843e138a72b08004500003cd3734000400658ac0202020a0a000091aae60016b4467f86000000''
      @ ''00a00239082c110000020405b40402080acf402640000000000103'' @ ''0307''"
    by (simp add: example_spaced_def example_hex_str_def example_lines_def digits_def
        isxdigit_def tolower_def)
  show ?thesis
    by (subst gen_hexdump_accept [OF a l])
       (simp add: d rows_from_Cons rows_from_Nil hex_eval seps_def w_init_def example_dump_def)
qed

section \<open>The claims\<close>

text \<open>
  Claim C5, amended. The classifier returns true exactly when, after the leading
  carriage returns, the line starts with two hex digits, a space or a horizontal tab
  (the two characters of \<open>isblank\<close>, no other whitespace) and two more hex digits. When it returns false it has set
  \<open>gLinePrefix\<close> to 0, and \<open>gen_hexdump\<close> returns at once: its result differs from the
  state before the call in \<open>gLinePrefix\<close> only, so nothing is written for that line.
  The line is within the range of the classifier's \<open>int\<close> index.
\<close>

theorem classifier_verdict:
  assumes "length ln < 2 ^ 31"
  shows "preprocess_hex_str ln w =
           Some (hex_pattern ln, if hex_pattern ln then w else w\<lparr>gLinePrefix := 0\<rparr>)
         \<and> (\<not> hex_pattern ln \<longrightarrow>
              gen_hexdump ln w = Some (w\<lparr>gLinePrefix := 0\<rparr>)
              \<and> map_option ofs (gen_hexdump ln w) = Some (ofs w))"
  using is_hex_line_pattern [OF assms] gen_hexdump_closed [OF assms, of w]
  by (simp add: preprocess_hex_str_def)

theorem classifier_verdict_witness:
  "preprocess_hex_str ''ab cd'' \<lparr>gLinePrefix = 32, ofs = [''row''], cout = [], cerr = []\<rparr> =
     Some (True, \<lparr>gLinePrefix = 32, ofs = [''row''], cout = [], cerr = []\<rparr>)
   \<and> preprocess_hex_str ''abcd ef'' \<lparr>gLinePrefix = 32, ofs = [''row''], cout = [], cerr = []\<rparr> =
     Some (False, \<lparr>gLinePrefix = 0, ofs = [''row''], cout = [], cerr = []\<rparr>)
   \<and> gen_hexdump ''abcd ef'' \<lparr>gLinePrefix = 32, ofs = [''row''], cout = [], cerr = []\<rparr> =
     Some \<lparr>gLinePrefix = 0, ofs = [''row''], cout = [], cerr = []\<rparr>"
  using classifier_verdict [of "''ab cd''" "\<lparr>gLinePrefix = 32, ofs = [''row''], cout = [], cerr = []\<rparr>"]
    classifier_verdict [of "''abcd ef''" "\<lparr>gLinePrefix = 32, ofs = [''row''], cout = [], cerr = []\<rparr>"]
  by (simp add: hex_pattern_def isxdigit_def isblank_def)

text \<open>
  Claim C5 as stated takes any whitespace character in third place. A line feed or a
  carriage return there is whitespace and not a blank: the classifier returns false,
  resets the counter, and nothing is written, as for a file in single-packet mode whose
  first line holds one byte.
\<close>

theorem line_break_not_blank:
  "whitespace_pattern [CHR ''a'', CHR ''b'', CHR 0x0A, CHR ''c'', CHR ''d'']
   \<and> preprocess_hex_str [CHR ''a'', CHR ''b'', CHR 0x0A, CHR ''c'', CHR ''d'']
         \<lparr>gLinePrefix = 32, ofs = [], cout = [], cerr = []\<rparr>
       = Some (False, \<lparr>gLinePrefix = 0, ofs = [], cout = [], cerr = []\<rparr>)
   \<and> gen_hexdump [CHR ''a'', CHR ''b'', CHR 0x0A, CHR ''c'', CHR ''d'']
         \<lparr>gLinePrefix = 32, ofs = [], cout = [], cerr = []\<rparr>
       = Some \<lparr>gLinePrefix = 0, ofs = [], cout = [], cerr = []\<rparr>
   \<and> whitespace_pattern [CHR ''a'', CHR ''b'', CHR 0x0D, CHR ''c'', CHR ''d'']
   \<and> is_hex_line [CHR ''a'', CHR ''b'', CHR 0x0D, CHR ''c'', CHR ''d''] = Some False"
proof -
  let ?n = "[CHR ''a'', CHR ''b'', CHR 0x0A, CHR ''c'', CHR ''d'']"
  let ?r = "[CHR ''a'', CHR ''b'', CHR 0x0D, CHR ''c'', CHR ''d'']"
  let ?w = "\<lparr>gLinePrefix = 32, ofs = [], cout = [], cerr = []\<rparr>"
  have p: "whitespace_pattern ?n" "whitespace_pattern ?r"
    by (simp_all add: whitespace_pattern_def isxdigit_def isspace_def)
  have n: "is_hex_line ?n = Some False" "is_hex_line ?r = Some False"
    by (simp_all add: classify_eval)
  from n(1) have "preprocess_hex_str ?n ?w = Some (False, ?w\<lparr>gLinePrefix := 0\<rparr>)"
    by (simp add: preprocess_hex_str_def)
  moreover from n(1) have "gen_hexdump ?n ?w = Some (?w\<lparr>gLinePrefix := 0\<rparr>)"
    by (rule gen_hexdump_reject)
  ultimately show ?thesis using p n(2) by simp
qed

text \<open>
  Claim C6. A line with fewer than five characters after its leading carriage returns,
  the empty line included, is classified as non-hex, and the classifier reads no
  position beyond the end of the string: its result is a value, while a read beyond
  position \<open>size()\<close> would make it \<open>None\<close>. The short-circuit conjunction stops at the
  terminator, which is neither a hex digit nor a blank; position \<open>size()\<close> itself is
  the terminator that \<open>operator[]\<close> is defined to return.
\<close>

theorem short_line_rejected:
  assumes "length (dropWhile (\<lambda>c. c = CHR 0x0D) ln) < 5" and "length ln < 2 ^ 31"
  shows "is_hex_line ln = Some False
         \<and> preprocess_hex_str ln w = Some (False, w\<lparr>gLinePrefix := 0\<rparr>)"
proof -
  from assms(1) have "\<not> hex_pattern ln"
    by (auto simp: hex_pattern_def split: list.split)
  with is_hex_line_pattern [OF assms(2)] show ?thesis
    by (simp add: preprocess_hex_str_def)
qed

theorem short_line_rejected_witness:
  "is_hex_line [] = Some False
   \<and> is_hex_line [CHR 0x0D, CHR 0x0D, CHR ''a'', CHR ''b'', CHR '' '', CHR ''c''] = Some False
   \<and> preprocess_hex_str [CHR 0x0D, CHR 0x0D, CHR ''a'', CHR ''b'', CHR '' '', CHR ''c''] w_init
       = Some (False, w_init)"
  using short_line_rejected [of "[]" w_init]
    short_line_rejected [of "[CHR 0x0D, CHR 0x0D, CHR ''a'', CHR ''b'', CHR '' '', CHR ''c'']" w_init]
  by (simp add: w_init_def)

text \<open>
  Claim C7. The header comment announces that its example hex string is formatted into
  the five rows of \<open>example_dump\<close>. The program writes nothing for it, in the
  single-packet mode (the whole text in one call) and in the one-packet-per-line mode
  alike: the third character of every line is a hex digit, not a blank, so the
  classifier rejects the line.
\<close>

theorem example_not_formatted:
  "gen_hexdump example_hex_str w_init = Some w_init
   \<and> dump_lines example_lines w_init = Some w_init
   \<and> ofs w_init \<noteq> example_dump"
proof -
  have r: "gen_hexdump l w_init = Some w_init" if "length l < 2 ^ 31" "\<not> hex_pattern l" for l
    using gen_hexdump_closed [OF that(1), of w_init] that(2) by (simp add: w_init_def)
  have "gen_hexdump example_hex_str w_init = Some w_init"
    by (rule r) (simp_all add: example_hex_str_def example_lines_def hex_pattern_def isxdigit_def isblank_def)
  moreover have "dump_lines example_lines w_init = Some w_init"
    unfolding example_lines_def
    by (simp add: r hex_pattern_def isxdigit_def isblank_def)
  moreover have "ofs w_init \<noteq> example_dump"
    by (simp add: w_init_def example_dump_def)
  ultimately show ?thesis by simp
qed

theorem example_not_formatted_witness:
  "map_option ofs (gen_hexdump example_hex_str w_init) = Some []
   \<and> map_option ofs (dump_lines example_lines w_init) = Some []
   \<and> length example_dump = 5"
  using example_not_formatted by (simp add: w_init_def example_dump_def)

text \<open>
  Claim C4, amended. For every input that the classifier accepts (and that the 32-bit
  loop counter can scan), the call appends rows to the output whose payloads, that is
  the rows without their offsets and without their spaces, concatenate to the hex digits
  of the input, lowercased, in their order.
\<close>

theorem digits_round_trip:
  assumes "is_hex_line hex_str = Some True" and "length hex_str < 2 ^ 32"
  shows "case gen_hexdump hex_str w of
           None \<Rightarrow> False
         | Some w' \<Rightarrow>
             take (length (ofs w)) (ofs w') = ofs w
             \<and> concat (map payload (drop (length (ofs w)) (ofs w'))) = digits hex_str"
  using payload_rows_from [OF digits_xdigit, of "gLinePrefix w" hex_str]
  by (simp add: gen_hexdump_accept [OF assms])

theorem digits_round_trip_witness:
  "is_hex_line ''0A 1b2'' = Some True
   \<and> map_option ofs (gen_hexdump ''0A 1b2'' w_init) = Some [''000000 0a 1b 2'']
   \<and> concat (map payload [''000000 0a 1b 2'']) = ''0a1b2''
   \<and> digits ''0A 1b2'' = ''0a1b2''"
proof -
  have a: "is_hex_line ''0A 1b2'' = Some True" by (simp add: classify_eval)
  have d: "digits ''0A 1b2'' = ''0a1b2''" by (simp add: digits_def isxdigit_def tolower_def)
  have g: "gen_hexdump ''0A 1b2'' w_init = Some (w_init\<lparr>ofs := [''000000 0a 1b 2'']\<rparr>)"
    by (simp add: gen_hexdump_accept [OF a] d rows_from_Cons rows_from_Nil hex_eval seps_def
        w_init_def)
  from digits_round_trip [OF a, of w_init] a d g show ?thesis
    by (simp add: w_init_def)
qed

text \<open>
  Claim C4 as stated fails on an input that the classifier rejects: nothing is written
  for it, while the input does contain hex digits.
\<close>

theorem rejected_line_loses_digits:
  "gen_hexdump ''packet 01 02'' w_init = Some w_init
   \<and> digits ''packet 01 02'' = ''ace0102''
   \<and> concat (map payload (ofs w_init)) = []"
proof -
  have "\<not> hex_pattern ''packet 01 02''" by (simp add: hex_pattern_def isxdigit_def)
  then have "gen_hexdump ''packet 01 02'' w_init = Some w_init"
    using gen_hexdump_closed [of "''packet 01 02''" w_init] by (simp add: w_init_def)
  moreover have "digits ''packet 01 02'' = ''ace0102''"
    by (simp add: digits_def isxdigit_def tolower_def)
  ultimately show ?thesis by (simp add: w_init_def)
qed

text \<open>
  Claim C8, amended. When the input path cannot be opened, \<open>read_hex_str\<close> returns 0 and
  leaves the accumulator string as it was, \<open>read_hex_gen_dump\<close> returns false, and both
  report the error on standard output (\<open>cout\<close>): nothing is written to the output file
  and nothing to standard error.
\<close>

theorem unreadable_input:
  assumes "fs fname = None"
  shows "read_hex_str fs fname hex_str w =
           (0, hex_str, w\<lparr>cout := cout w @ ''Unable to open file'' @ fname @ [CHR 0x0A]\<rparr>)
         \<and> read_hex_gen_dump fs fname w =
           Some (False, w\<lparr>cout := cout w @ ''Unable to open file'' @ fname @ [CHR 0x0A]\<rparr>)
         \<and> ofs (w\<lparr>cout := cout w @ ''Unable to open file'' @ fname @ [CHR 0x0A]\<rparr>) = ofs w
         \<and> cerr (w\<lparr>cout := cout w @ ''Unable to open file'' @ fname @ [CHR 0x0A]\<rparr>) = cerr w"
  using assms by (simp add: read_hex_str_def read_hex_gen_dump_def)

theorem unreadable_input_witness:
  "read_hex_str Map.empty ''in.txt'' ''ab'' w_init =
     (0, ''ab'', w_init\<lparr>cout := ''Unable to open filein.txt'' @ [CHR 0x0A]\<rparr>)
   \<and> read_hex_gen_dump Map.empty ''in.txt'' w_init =
     Some (False, w_init\<lparr>cout := ''Unable to open filein.txt'' @ [CHR 0x0A]\<rparr>)"
  using unreadable_input [of Map.empty "''in.txt''" "''ab''" w_init]
  by (simp add: w_init_def)

text \<open>
  Claim C8 as stated has the error reported on standard error; the message goes to
  standard output, and standard error stays empty.
\<close>

theorem error_not_on_stderr:
  "cerr (snd (snd (read_hex_str Map.empty ''in.txt'' [] w_init))) = []
   \<and> cout (snd (snd (read_hex_str Map.empty ''in.txt'' [] w_init)))
       = ''Unable to open filein.txt'' @ [CHR 0x0A]
   \<and> map_option (cerr \<circ> snd) (read_hex_gen_dump Map.empty ''in.txt'' w_init) = Some []
   \<and> map_option (cout \<circ> snd) (read_hex_gen_dump Map.empty ''in.txt'' w_init)
       = Some (''Unable to open filein.txt'' @ [CHR 0x0A])"
  by (simp add: read_hex_str_def read_hex_gen_dump_def w_init_def)

text \<open>
  Claim C1, amended. A row holds 16 bytes, that is 32 hex digits. For every input that
  the classifier accepts and whose digit stream has exactly \<open>32 * N\<close> digits, a call
  with the counter at 0 appends exactly \<open>N\<close> rows; row \<open>k\<close> is the offset \<open>16 * k\<close> in
  six-digit hexadecimal, a space, and 16 groups of two digits each, laid out with single
  spaces and a double space after the 8th group. (The input is one that the 32-bit loop
  counter can scan.)
\<close>

theorem full_rows:
  assumes "is_hex_line hex_str = Some True" and "length hex_str < 2 ^ 32"
    and "length (digits hex_str) = 32 * N" and "gLinePrefix w = 0"
  shows "case gen_hexdump hex_str w of
           None \<Rightarrow> False
         | Some w' \<Rightarrow>
             take (length (ofs w)) (ofs w') = ofs w
             \<and> length (drop (length (ofs w)) (ofs w')) = N
             \<and> (\<forall>k < N.
                   let gs = pairs (take 32 (drop (32 * k) (digits hex_str)))
                   in drop (length (ofs w)) (ofs w') ! k = hex06 (16 * k) @ '' '' @ layout 1 gs
                      \<and> length gs = 16 \<and> (\<forall>g \<in> set gs. length g = 2))"
proof -
  let ?D = "digits hex_str"
  define w' where
    "w' = w\<lparr>ofs := ofs w @ rows_from 0 ?D, gLinePrefix := 0 + 16 * of_nat (length ?D div 32)\<rparr>"
  have g: "gen_hexdump hex_str w = Some w'"
    using gen_hexdump_accept [OF assms(1,2), of w] assms(4) by (simp add: w'_def)
  have o: "drop (length (ofs w)) (ofs w') = rows_from 0 ?D"
    "take (length (ofs w)) (ofs w') = ofs w"
    by (simp_all add: w'_def)
  have len: "length (rows_from 0 ?D) = N"
    using assms(3) by (simp add: length_rows_from rows_count)
  have "length ?D \<le> length hex_str" by (simp add: digits_def)
  with assms(2) have lt: "length ?D < 2 ^ 32" by simp
  have "take (length (ofs w)) (ofs w') = ofs w
        \<and> length (drop (length (ofs w)) (ofs w')) = N
        \<and> (\<forall>k < N.
              let gs = pairs (take 32 (drop (32 * k) ?D))
              in drop (length (ofs w)) (ofs w') ! k = hex06 (16 * k) @ '' '' @ layout 1 gs
                 \<and> length gs = 16 \<and> (\<forall>g \<in> set gs. length g = 2))"
    unfolding o Let_def using len all_full_rows [OF assms(3) lt] by blast
  then show ?thesis unfolding g option.case .
qed

theorem full_rows_witness:
  "is_hex_line ''00 0102030405060708090a0b0c0d0e0f'' = Some True
   \<and> length (digits ''00 0102030405060708090a0b0c0d0e0f'') = 32 * 1
   \<and> map_option ofs (gen_hexdump ''00 0102030405060708090a0b0c0d0e0f'' w_init)
       = Some [''000000 00 01 02 03 04 05 06 07  08 09 0a 0b 0c 0d 0e 0f'']"
proof -
  let ?s = "''00 0102030405060708090a0b0c0d0e0f''"
  have a: "is_hex_line ?s = Some True" by (simp add: classify_eval)
  have d: "digits ?s = ''000102030405060708090a0b0c0d0e0f''"
    by (simp add: digits_def isxdigit_def tolower_def)
  have h: "hex06 0 = ''000000''" by (simp add: hex_eval)
  have n: "length (digits ?s) = 32 * 1" "length ?s < 2 ^ 32" "gLinePrefix w_init = 0"
    by (simp_all add: d w_init_def)
  obtain w' where g: "gen_hexdump ?s w_init = Some w'"
    and r: "length (drop (length (ofs w_init)) (ofs w')) = 1"
      "\<forall>k<1. let gs = pairs (take 32 (drop (32 * k) (digits ?s)))
          in drop (length (ofs w_init)) (ofs w') ! k = hex06 (16 * k) @ '' '' @ layout 1 gs
             \<and> length gs = 16 \<and> (\<forall>g \<in> set gs. length g = 2)"
    using full_rows [OF a n(2) n(1) n(3)] by (auto split: option.splits)
  from r(1) have l: "length (ofs w') = 1" by (simp add: w_init_def)
  from r(2) have "ofs w' ! 0 = hex06 0 @ '' '' @ layout 1 (pairs (digits ?s))"
    by (simp add: w_init_def d Let_def)
  with l have "ofs w' = [hex06 0 @ '' '' @ layout 1 (pairs (digits ?s))]"
    by (cases "ofs w'") simp_all
  with g a d h show ?thesis by simp
qed

text \<open>
  Claim C1 as stated fails for \<open>N = 1\<close>: a string of 16 hex digits and nothing else is
  rejected by the classifier and yields no row, and 16 digits that the classifier
  accepts make one row of 8 groups, not of 16.
\<close>

theorem sixteen_digits_not_a_row:
  "length (digits ''0123456789abcdef'') = 16 * 1
   \<and> gen_hexdump ''0123456789abcdef'' w_init = Some w_init
   \<and> length (digits ''01 23 45 67 89 ab cd ef'') = 16 * 1
   \<and> map_option ofs (gen_hexdump ''01 23 45 67 89 ab cd ef'' w_init)
       = Some [''000000 01 23 45 67 89 ab cd ef  '']"
proof -
  have d1: "digits ''0123456789abcdef'' = ''0123456789abcdef''"
    by (simp add: digits_def isxdigit_def tolower_def)
  have "\<not> hex_pattern ''0123456789abcdef''" by (simp add: hex_pattern_def isxdigit_def isblank_def)
  then have g1: "gen_hexdump ''0123456789abcdef'' w_init = Some w_init"
    using gen_hexdump_closed [of "''0123456789abcdef''" w_init] by (simp add: w_init_def)
  have a: "is_hex_line ''01 23 45 67 89 ab cd ef'' = Some True" by (simp add: classify_eval)
  have d2: "digits ''01 23 45 67 89 ab cd ef'' = ''0123456789abcdef''"
    by (simp add: digits_def isxdigit_def tolower_def)
  have g2: "gen_hexdump ''01 23 45 67 89 ab cd ef'' w_init
              = Some (w_init\<lparr>ofs := [''000000 01 23 45 67 89 ab cd ef  '']\<rparr>)"
    by (simp add: gen_hexdump_accept [OF a] d2 rows_from_Cons rows_from_Nil hex_eval seps_def
        w_init_def)
  from d1 g1 d2 g2 show ?thesis by simp
qed

text \<open>
  Claim C9. When the digit stream of an accepted line has a multiple of 16 digits, every
  row the call writes carries 8 or 16 bytes: none is a bare offset, whatever the offset.
  The rows number \<open>(n + 16) div 32\<close> for \<open>n\<close> digits, so that after the last full row of
  a stream of \<open>32 * m\<close> digits nothing more is written: the row begun with the next
  offset is dropped. (The input is one that the 32-bit loop counter can scan.)
\<close>

theorem no_offset_only_row:
  assumes "is_hex_line hex_str = Some True" and "length hex_str < 2 ^ 32"
    and "16 dvd length (digits hex_str)"
  shows "case gen_hexdump hex_str w of
           None \<Rightarrow> False
         | Some w' \<Rightarrow>
             take (length (ofs w)) (ofs w') = ofs w
             \<and> length (drop (length (ofs w)) (ofs w')) = (length (digits hex_str) + 16) div 32
             \<and> (\<forall>r \<in> set (drop (length (ofs w)) (ofs w')).
                   (length (payload r) = 16 \<or> length (payload r) = 32)
                   \<and> (\<forall>q. r \<noteq> snprintf_06x 16 q))"
proof -
  let ?D = "digits hex_str"
  let ?p = "gLinePrefix w"
  define w' where
    "w' = w\<lparr>ofs := ofs w @ rows_from ?p ?D, gLinePrefix := ?p + 16 * of_nat (length ?D div 32)\<rparr>"
  have g: "gen_hexdump hex_str w = Some w'"
    using gen_hexdump_accept [OF assms(1,2), of w] by (simp add: w'_def)
  have o: "drop (length (ofs w)) (ofs w') = rows_from ?p ?D"
    "take (length (ofs w)) (ofs w') = ofs w"
    by (simp_all add: w'_def)
  have len: "length (rows_from ?p ?D) = (length ?D + 16) div 32"
    using half_row_count [OF assms(3)] by (simp add: length_rows_from)
  have row: "(length (payload r) = 16 \<or> length (payload r) = 32) \<and> (\<forall>q. r \<noteq> snprintf_06x 16 q)"
    if "r \<in> set (rows_from ?p ?D)" for r
  proof -
    from that obtain k where k: "k < (length ?D + 31) div 32"
      and r: "r = hex06 (unat (?p + 16 * of_nat k)) @ '' '' @ body 0 (take 32 (drop (32 * k) ?D))"
      by (rule in_rows_from)
    have "\<forall>c \<in> set (take 32 (drop (32 * k) ?D)). isxdigit c"
      using digits_xdigit [of hex_str] by (auto dest: in_set_takeD in_set_dropD)
    then have p: "payload r = take 32 (drop (32 * k) ?D)" unfolding r by (rule payload_row)
    from half_chunk [OF assms(3) k] p
    have l: "length (payload r) = 16 \<or> length (payload r) = 32" by simp
    then have "payload r \<noteq> []" by auto
    then have "r \<noteq> snprintf_06x 16 q" for q using payload_prefix_only [of q] by auto
    with l show ?thesis by simp
  qed
  have "take (length (ofs w)) (ofs w') = ofs w
        \<and> length (drop (length (ofs w)) (ofs w')) = (length ?D + 16) div 32
        \<and> (\<forall>r \<in> set (drop (length (ofs w)) (ofs w')).
              (length (payload r) = 16 \<or> length (payload r) = 32)
              \<and> (\<forall>q. r \<noteq> snprintf_06x 16 q))"
    unfolding o using len row by blast
  then show ?thesis unfolding g option.case .
qed

theorem no_offset_only_row_witness:
  "is_hex_line ''00 0102030405060708090a0b0c0d0e0f'' = Some True
   \<and> 16 dvd length (digits ''00 0102030405060708090a0b0c0d0e0f'')
   \<and> map_option (length \<circ> ofs) (gen_hexdump ''00 0102030405060708090a0b0c0d0e0f'' w_init)
       = Some 1"
proof -
  let ?s = "''00 0102030405060708090a0b0c0d0e0f''"
  have a: "is_hex_line ?s = Some True" by (simp add: classify_eval)
  have d: "digits ?s = ''000102030405060708090a0b0c0d0e0f''"
    by (simp add: digits_def isxdigit_def tolower_def)
  have l: "length (digits ?s) = 32" by (simp add: d)
  have n: "16 dvd length (digits ?s)" "length ?s < 2 ^ 32" by (simp_all add: l)
  from no_offset_only_row [OF a n(2) n(1), of w_init]
  obtain w' where "gen_hexdump ?s w_init = Some w'"
    and "take (length (ofs w_init)) (ofs w') = ofs w_init
         \<and> length (drop (length (ofs w_init)) (ofs w')) = (length (digits ?s) + 16) div 32
         \<and> (\<forall>r \<in> set (drop (length (ofs w_init)) (ofs w')).
               (length (payload r) = 16 \<or> length (payload r) = 32)
               \<and> (\<forall>q. r \<noteq> snprintf_06x 16 q))"
    by (rule returnsE)
  then have "map_option (length \<circ> ofs) (gen_hexdump ?s w_init) = Some 1"
    by (simp add: l w_init_def)
  with a n(1) show ?thesis by simp
qed

text \<open>
  Claim C10. When the digit stream of an accepted line has an odd number of digits, the
  call writes at least one row, and the last row it writes ends with a space followed by
  the last digit of the stream: the unpaired digit stands as a group of one character.
  The payload of that row has an odd number of digits; when it is the unpaired digit
  alone, the row is the offset, the space and that digit, and it is written all the
  same. (The input is one that the 32-bit loop counter can scan.)
\<close>

theorem dangling_digit:
  assumes "is_hex_line hex_str = Some True" and "length hex_str < 2 ^ 32"
    and "odd (length (digits hex_str))"
  shows "case gen_hexdump hex_str w of
           None \<Rightarrow> False
         | Some w' \<Rightarrow>
             take (length (ofs w)) (ofs w') = ofs w
             \<and> length (ofs w) < length (ofs w')
             \<and> drop (length (last (ofs w')) - 2) (last (ofs w'))
                 = [CHR '' '', last (digits hex_str)]
             \<and> odd (length (payload (last (ofs w'))))
             \<and> (length (payload (last (ofs w'))) = 1 \<longrightarrow>
                  last (ofs w') = snprintf_06x 16 (gLinePrefix w') @ [last (digits hex_str)])"
proof -
  let ?D = "digits hex_str"
  let ?p = "gLinePrefix w"
  let ?q = "length ?D div 32"
  let ?c = "drop (32 * ?q) ?D"
  let ?h = "hex06 (unat (?p + 16 * of_nat ?q))"
  define w' where
    "w' = w\<lparr>ofs := ofs w @ rows_from ?p ?D, gLinePrefix := ?p + 16 * of_nat ?q\<rparr>"
  have g: "gen_hexdump hex_str w = Some w'"
    using gen_hexdump_accept [OF assms(1,2), of w] by (simp add: w'_def)
  from assms(3) have m: "length ?D mod 32 \<noteq> 0" by presburger
  note lr = last_row [OF m, of ?p]
  have o: "take (length (ofs w)) (ofs w') = ofs w" "length (ofs w) < length (ofs w')"
    "last (ofs w') = ?h @ '' '' @ body 0 ?c"
    "snprintf_06x 16 (gLinePrefix w') = ?h @ '' ''"
    using lr by (simp_all add: w'_def snprintf_06x_16)
  have lc: "length ?c = length ?D mod 32" by (simp add: modulo_nat_def mult.commute)
  with assms(3) have c: "odd (length ?c)" "length ?c < 32" by presburger+
  have x: "\<forall>x \<in> set ?c. isxdigit x"
    using digits_xdigit [of hex_str] by (auto dest: in_set_dropD)
  from m have "32 * ?q < length ?D" by (simp add: modulo_nat_def mult.commute)
  then have l: "last ?c = last ?D" by (rule last_drop)
  have p: "payload (?h @ '' '' @ body 0 ?c) = ?c" using x by (rule payload_row)
  have d: "drop (length (last (ofs w')) - 2) (last (ofs w')) = [CHR '' '', last ?D]"
    unfolding o(3) by (simp only: dangling_row(1) [OF c x] l)
  have e: "odd (length (payload (last (ofs w'))))"
    unfolding o(3) p by (rule c(1))
  have f: "length (payload (last (ofs w'))) = 1 \<longrightarrow>
             last (ofs w') = snprintf_06x 16 (gLinePrefix w') @ [last ?D]"
  proof
    assume "length (payload (last (ofs w'))) = 1"
    then have "length ?c = 1" unfolding o(3) p .
    then have "?h @ '' '' @ body 0 ?c = ?h @ '' '' @ [last ?c]"
      by (rule dangling_row(2) [OF c x])
    then show "last (ofs w') = snprintf_06x 16 (gLinePrefix w') @ [last ?D]"
      unfolding o(3,4) l by simp
  qed
  from o(1,2) d e f
  have "take (length (ofs w)) (ofs w') = ofs w
        \<and> length (ofs w) < length (ofs w')
        \<and> drop (length (last (ofs w')) - 2) (last (ofs w')) = [CHR '' '', last ?D]
        \<and> odd (length (payload (last (ofs w'))))
        \<and> (length (payload (last (ofs w'))) = 1 \<longrightarrow>
             last (ofs w') = snprintf_06x 16 (gLinePrefix w') @ [last ?D])"
    by blast
  then show ?thesis unfolding g option.case .
qed


theorem dangling_digit_witness:
  "is_hex_line ''00 0102030405060708090a0b0c0d0e0fA'' = Some True
   \<and> odd (length (digits ''00 0102030405060708090a0b0c0d0e0fA''))
   \<and> gen_hexdump ''00 0102030405060708090a0b0c0d0e0fA'' w_init
       = Some (w_init\<lparr>gLinePrefix := 16,
                 ofs := [''000000 00 01 02 03 04 05 06 07  08 09 0a 0b 0c 0d 0e 0f'',
                         ''000010 a'']\<rparr>)
   \<and> snprintf_06x 16 16 @ [last (digits ''00 0102030405060708090a0b0c0d0e0fA'')] = ''000010 a''"
proof -
  let ?s = "''00 0102030405060708090a0b0c0d0e0fA''"
  have a: "is_hex_line ?s = Some True" by (simp add: classify_eval)
  have d: "digits ?s = ''000102030405060708090a0b0c0d0e0fa''"
    by (simp add: digits_def isxdigit_def tolower_def)
  have l: "length (digits ?s) = 33" by (simp add: d)
  have n: "odd (length (digits ?s))" "length ?s < 2 ^ 32" by (simp_all add: l)
  have g: "gen_hexdump ?s w_init
       = Some (w_init\<lparr>gLinePrefix := 16,
                 ofs := [''000000 00 01 02 03 04 05 06 07  08 09 0a 0b 0c 0d 0e 0f'',
                         ''000010 a'']\<rparr>)"
    by (simp add: gen_hexdump_accept [OF a] d rows_from_Cons rows_from_Nil hex_eval seps_def
        w_init_def)
  have p: "payload ''000010 a'' = ''a''" by (simp add: payload_def)
  from dangling_digit [OF a n(2) n(1), of w_init]
  have "snprintf_06x 16 16 @ [last (digits ?s)] = ''000010 a''"
    unfolding g option.case by (simp add: p)
  with a n(1) g show ?thesis by simp
qed

text \<open>
  Claim C3. Every row that a call writes and that has more than 8 byte groups is its
  offset, a space, and its groups laid out as \<open>layout\<close> says: a single space between
  neighbours, two spaces between the 8th and the 9th group. Nothing follows the 16th
  group of a row; a row that ends with a complete group before the 16th has one space
  after it. (The line is within the range of the classifier's \<open>int\<close> index.)
\<close>

theorem row_spacing:
  assumes "length hex_str < 2 ^ 31" and "gen_hexdump hex_str w = Some w'"
    and "r \<in> set (drop (length (ofs w)) (ofs w'))" and "8 < length (pairs (payload r))"
  shows "r = offset_of r @ '' '' @ layout 1 (pairs (payload r)) @
               (if length (pairs (payload r)) = 16 \<or> odd (length (payload r)) then [] else '' '')
         \<and> length (pairs (payload r)) \<le> 16"
proof -
  let ?D = "digits hex_str"
  let ?p = "gLinePrefix w"
  have acc: "hex_pattern hex_str"
  proof (rule ccontr)
    assume "\<not> hex_pattern hex_str"
    with gen_hexdump_closed [OF assms(1), of w] assms(2) have "w' = w\<lparr>gLinePrefix := 0\<rparr>"
      by simp
    with assms(3) show False by simp
  qed
  with gen_hexdump_closed [OF assms(1), of w] assms(2)
  have "ofs w' = ofs w @ rows_from ?p ?D" by auto
  with assms(3) have "r \<in> set (rows_from ?p ?D)" by simp
  then obtain k where k: "k < (length ?D + 31) div 32"
    and r: "r = hex06 (unat (?p + 16 * of_nat k)) @ '' '' @ body 0 (take 32 (drop (32 * k) ?D))"
    by (rule in_rows_from)
  define c where "c = take 32 (drop (32 * k) ?D)"
  define h where "h = hex06 (unat (?p + 16 * of_nat k))"
  have r': "r = h @ '' '' @ body 0 c" using r by (simp only: c_def h_def)
  have x: "\<forall>x \<in> set c. isxdigit x"
    unfolding c_def using digits_xdigit [of hex_str] by (auto dest: in_set_takeD in_set_dropD)
  have p: "payload r = c" unfolding r' h_def using x by (rule payload_row)
  have f: "offset_of r = h" unfolding r' h_def by (rule offset_of_row)
  have lc: "0 < length c" "length c \<le> 32"
    unfolding c_def using chunk_length(1,2) [OF k] by blast+
  from assms(4) have g8: "length (pairs c) \<noteq> 8" unfolding p by simp
  have "body 0 c = layout 1 (pairs c) @
          (if length (pairs c) = 16 \<or> odd (length c) then [] else '' '')"
    using row_text [OF lc] g8 by auto
  then have "r = offset_of r @ '' '' @ layout 1 (pairs (payload r)) @
               (if length (pairs (payload r)) = 16 \<or> odd (length (payload r)) then [] else '' '')"
    unfolding f p by (simp only: r')
  moreover from lc(2) have "length (pairs (payload r)) \<le> 16"
    unfolding p by (simp add: length_pairs)
  ultimately show ?thesis by blast
qed

theorem row_spacing_witness:
  "gen_hexdump ''00 0102030405060708090a0b'' w_init
     = Some (w_init\<lparr>ofs := [''000000 00 01 02 03 04 05 06 07  08 09 0a 0b '']\<rparr>)
   \<and> pairs (payload ''000000 00 01 02 03 04 05 06 07  08 09 0a 0b '')
       = [''00'', ''01'', ''02'', ''03'', ''04'', ''05'', ''06'', ''07'', ''08'', ''09'', ''0a'', ''0b'']
   \<and> ''000000 00 01 02 03 04 05 06 07  08 09 0a 0b ''
       = offset_of ''000000 00 01 02 03 04 05 06 07  08 09 0a 0b '' @ '' '' @
           layout 1 (pairs (payload ''000000 00 01 02 03 04 05 06 07  08 09 0a 0b '')) @ '' ''"
proof -
  let ?s = "''00 0102030405060708090a0b''"
  let ?r = "''000000 00 01 02 03 04 05 06 07  08 09 0a 0b ''"
  have a: "is_hex_line ?s = Some True" by (simp add: classify_eval)
  have d: "digits ?s = ''000102030405060708090a0b''"
    by (simp add: digits_def isxdigit_def tolower_def)
  have g: "gen_hexdump ?s w_init = Some (w_init\<lparr>ofs := [?r]\<rparr>)"
    by (simp add: gen_hexdump_accept [OF a] d rows_from_Cons rows_from_Nil hex_eval seps_def
        w_init_def)
  have p: "pairs (payload ?r)
       = [''00'', ''01'', ''02'', ''03'', ''04'', ''05'', ''06'', ''07'', ''08'', ''09'', ''0a'', ''0b'']"
    by (simp add: payload_def)
  have l: "length (payload ?r) = 24" by (simp add: payload_def)
  have "?r = offset_of ?r @ '' '' @ layout 1 (pairs (payload ?r)) @
               (if length (pairs (payload ?r)) = 16 \<or> odd (length (payload ?r)) then [] else '' '')
         \<and> length (pairs (payload ?r)) \<le> 16"
    by (rule row_spacing [OF _ g]) (simp_all add: w_init_def p)
  then have "?r = offset_of ?r @ '' '' @ layout 1 (pairs (payload ?r)) @ '' ''"
    by (simp only: p l) simp
  with g p show ?thesis by blast
qed

text \<open>
  Claim C2, amended. Take any state in which \<open>gLinePrefix\<close> is 0, as it is when the
  program starts and after every call on a line that the classifier rejects, and any
  sequence of calls on accepted lines from there (no call in between resets the counter).
  Every row these calls append starts with an offset printed by \<open>%06x\<close>, lowercase
  and zero-padded to at least six digits, whose value is 16 times the number of complete
  rows among the rows appended before it, modulo \<open>2 ^ 32\<close>, the counter being 32 bits
  wide. (Each line is one that the 32-bit loop counter can scan.)
\<close>

theorem offset_counts_rows:
  assumes "gLinePrefix w0 = 0"
    and "\<forall>l \<in> set ls. is_hex_line l = Some True \<and> length l < 2 ^ 32"
  shows "case invocations ls w0 of
           None \<Rightarrow> False
         | Some w \<Rightarrow>
             take (length (ofs w0)) (ofs w) = ofs w0
             \<and> (\<forall>k < length (drop (length (ofs w0)) (ofs w)).
                   offset_of (drop (length (ofs w0)) (ofs w) ! k) =
                     hex06 ((16 * length (filter complete_row
                                           (take k (drop (length (ofs w0)) (ofs w))))) mod 2 ^ 32))"
proof -
  from invocations_accept [OF assms(2), of w0] assms(1) obtain q where
    g: "invocations ls w0 = Some (w0\<lparr>ofs := ofs w0 @ all_rows 0 ls, gLinePrefix := q\<rparr>)"
    by auto
  let ?w = "w0\<lparr>ofs := ofs w0 @ all_rows 0 ls, gLinePrefix := q\<rparr>"
  have o: "drop (length (ofs w0)) (ofs ?w) = all_rows 0 ls"
    "take (length (ofs w0)) (ofs ?w) = ofs w0"
    by simp_all
  have u: "unat (0 + 16 * of_nat c :: 32 word) = (16 * c) mod 2 ^ 32" for c
  proof -
    have "(0 + 16 * of_nat c :: 32 word) = of_nat (16 * c)" by simp
    then show ?thesis by (simp only: unat_of_nat) simp
  qed
  have "offset_of (all_rows 0 ls ! k) =
          hex06 ((16 * length (filter complete_row (take k (all_rows 0 ls)))) mod 2 ^ 32)"
    if "k < length (all_rows 0 ls)" for k
    using offset_all_rows [OF that] by (simp only: u)
  then have "take (length (ofs w0)) (ofs ?w) = ofs w0
        \<and> (\<forall>k < length (drop (length (ofs w0)) (ofs ?w)).
              offset_of (drop (length (ofs w0)) (ofs ?w) ! k) =
                hex06 ((16 * length (filter complete_row
                                      (take k (drop (length (ofs w0)) (ofs ?w))))) mod 2 ^ 32))"
    unfolding o by blast
  then show ?thesis unfolding g option.case .
qed


theorem offset_counts_rows_witness:
  "invocations [full_line, ''00 01''] w_init
     = Some (w_init\<lparr>ofs := [''000000 00 01 02 03 04 05 06 07  08 09 0a 0b 0c 0d 0e 0f'',
                             ''000010 00 01 ''],
                     gLinePrefix := 16\<rparr>)
   \<and> offset_of ''000010 00 01 ''
       = hex06 ((16 * length (filter complete_row
           [''000000 00 01 02 03 04 05 06 07  08 09 0a 0b 0c 0d 0e 0f''])) mod 2 ^ 32)"
proof -
  let ?r = "''000000 00 01 02 03 04 05 06 07  08 09 0a 0b 0c 0d 0e 0f''"
  have a: "is_hex_line ''00 01'' = Some True" by (simp add: classify_eval)
  have d1: "digits full_line = ''000102030405060708090a0b0c0d0e0f''"
    by (simp add: full_line_def digits_def isxdigit_def tolower_def)
  have d2: "digits ''00 01'' = ''0001''" by (simp add: digits_def isxdigit_def tolower_def)
  have g1: "gen_hexdump full_line w_init = Some (w_init\<lparr>ofs := [?r], gLinePrefix := 16\<rparr>)"
    by (simp add: gen_hexdump_accept [OF full_line_facts(1,2)] d1 rows_from_Cons rows_from_Nil
        hex_eval seps_def w_init_def)
  have g2: "gen_hexdump ''00 01'' (w_init\<lparr>ofs := [?r], gLinePrefix := 16\<rparr>)
              = Some (w_init\<lparr>ofs := [?r, ''000010 00 01 ''], gLinePrefix := 16\<rparr>)"
    by (simp add: gen_hexdump_accept [OF a] d2 rows_from_Cons rows_from_Nil
        hex_eval seps_def w_init_def)
  have g: "invocations [full_line, ''00 01''] w_init
             = Some (w_init\<lparr>ofs := [?r, ''000010 00 01 ''], gLinePrefix := 16\<rparr>)"
    by (simp add: g1 g2)
  have h: "\<forall>l \<in> set [full_line, ''00 01'']. is_hex_line l = Some True \<and> length l < 2 ^ 32"
    using full_line_facts(1,2) a by simp
  have z: "gLinePrefix w_init = 0" by (simp add: w_init_def)
  from offset_counts_rows [OF z h]
  have "\<forall>k < 2. offset_of ([?r, ''000010 00 01 ''] ! k) =
          hex06 ((16 * length (filter complete_row (take k [?r, ''000010 00 01 '']))) mod 2 ^ 32)"
    unfolding g option.case by (simp add: w_init_def)
  then have "offset_of ([?r, ''000010 00 01 ''] ! 1) =
          hex06 ((16 * length (filter complete_row (take 1 [?r, ''000010 00 01 '']))) mod 2 ^ 32)"
    by (rule allE [of _ 1]) simp
  then have "offset_of ''000010 00 01 '' =
          hex06 ((16 * length (filter complete_row [?r])) mod 2 ^ 32)"
    by (simp only: nth_Cons_Suc nth_Cons_0 One_nat_def take_Suc_Cons take_0)
  with g show ?thesis by blast
qed

text \<open>
  Claim C2 as stated fails on long runs without a reset. After \<open>2 ^ 28\<close> complete rows
  the counter has wrapped: the next row is printed with offset \<open>000000\<close>, while 16 times
  the number of complete rows is \<open>0x100000000\<close>. And after \<open>2 ^ 20\<close> complete rows the
  offset printed has seven digits, not six.
\<close>

theorem offset_wraps:
  "(case invocations (replicate (Suc (2 ^ 28)) full_line) w_init of
      None \<Rightarrow> False
    | Some w \<Rightarrow>
        offset_of (ofs w ! (2 ^ 28)) = ''000000''
        \<and> length (filter complete_row (take (2 ^ 28) (ofs w))) = 2 ^ 28)
   \<and> hex06 (16 * 2 ^ 28) = ''100000000''
   \<and> (case invocations (replicate (Suc (2 ^ 20)) full_line) w_init of
        None \<Rightarrow> False
      | Some w \<Rightarrow>
          offset_of (ofs w ! (2 ^ 20)) = ''1000000''
          \<and> length (filter complete_row (take (2 ^ 20) (ofs w))) = 2 ^ 20)"
proof -
  have z: "hex06 (unat (16 * of_nat (2 ^ 28) :: 32 word)) = ''000000''"
    by (simp add: hex_eval)
  have s: "hex06 (unat (16 * of_nat (2 ^ 20) :: 32 word)) = ''1000000''"
    by (simp add: hex_eval)
  have h: "hex06 (16 * 2 ^ 28) = ''100000000''" by (simp add: hex_eval)
  from replicate_run [OF full_line_facts, of "2 ^ 28"]
  have a: "case invocations (replicate (Suc (2 ^ 28)) full_line) w_init of
      None \<Rightarrow> False
    | Some w \<Rightarrow>
        offset_of (ofs w ! (2 ^ 28)) = ''000000''
        \<and> length (filter complete_row (take (2 ^ 28) (ofs w))) = 2 ^ 28"
    by (simp only: z)
  from replicate_run [OF full_line_facts, of "2 ^ 20"]
  have b: "case invocations (replicate (Suc (2 ^ 20)) full_line) w_init of
        None \<Rightarrow> False
      | Some w \<Rightarrow>
          offset_of (ofs w ! (2 ^ 20)) = ''1000000''
          \<and> length (filter complete_row (take (2 ^ 20) (ofs w))) = 2 ^ 20"
    by (simp only: s)
  from a h b show ?thesis by blast
qed

end
